theory Spec2Isabelle
  imports Main
begin

section \<open>Data model of \<^verbatim>\<open>geocode_addresses.py\<close>\<close>

text \<open>
  A path step is what the script puts into a \<^verbatim>\<open>json_path\<close> list: a string key or
  the index produced by \<^verbatim>\<open>enumerate\<close> (never negative).
\<close>

datatype step = Key string | Idx nat

text \<open>
  The document is what \<^verbatim>\<open>json.load\<close> returns. Floats stay abstract (type \<open>'f\<close>).
  A dict is an association list in insertion order; its keys are steps because
  \<^verbatim>\<open>obj[path[-1]] = ...\<close> may store under an integer key as well.
\<close>

datatype 'f json =
    JNull
  | JBool bool
  | JInt int
  | JFloat 'f
  | JStr string
  | JArr "'f json list"
  | JObj "(step \<times> 'f json) list"

datatype py_error = KeyError | IndexError | TypeError | AttributeError

text \<open>Sequencing of statements that may raise: the first exception wins.\<close>

fun andthen :: "'e + 'a \<Rightarrow> ('a \<Rightarrow> 'e + 'b) \<Rightarrow> 'e + 'b" where
  "andthen (Inl e) f = Inl e"
| "andthen (Inr x) f = f x"

text \<open>An address entry is the tuple \<^verbatim>\<open>(label, addr, json_path)\<close>.\<close>

type_synonym entry = "string \<times> string \<times> step list"

section \<open>Python primitives used by the script\<close>

text \<open>\<^verbatim>\<open>obj.get(key, default)\<close>: only a dict has the method.\<close>

fun py_get :: "'f json \<Rightarrow> string \<Rightarrow> 'f json \<Rightarrow> py_error + 'f json" where
  "py_get (JObj kvs) k dflt =
     (case map_of kvs (Key k) of None \<Rightarrow> Inr dflt | Some v \<Rightarrow> Inr v)"
| "py_get _ k dflt = Inl AttributeError"

text \<open>
  What \<^verbatim>\<open>enumerate(x)\<close> iterates over: the elements of a list, the keys of a dict,
  the characters of a string; anything else is not iterable.
\<close>

fun key_value :: "step \<Rightarrow> 'f json" where
  "key_value (Key s) = JStr s"
| "key_value (Idx i) = JInt (int i)"

fun py_iter :: "'f json \<Rightarrow> py_error + 'f json list" where
  "py_iter (JArr xs) = Inr xs"
| "py_iter (JObj kvs) = Inr (map (\<lambda>kv. key_value (fst kv)) kvs)"
| "py_iter (JStr s) = Inr (map (\<lambda>c. JStr [c]) s)"
| "py_iter _ = Inl TypeError"

text \<open>Decimal digits of a non-negative integer, as \<^verbatim>\<open>f"{i}"\<close> prints an index.\<close>

definition digit :: "nat \<Rightarrow> char" where
  "digit d = char_of (48 + d)"

fun dec :: "nat \<Rightarrow> string" where
  "dec n = (if n < 10 then [digit n] else dec (n div 10) @ [digit (n mod 10)])"

declare dec.simps [simp del]

text \<open>
  \<^verbatim>\<open>f"{v}"\<close> for a value of the document. A string is inserted as it is; the
  renderings of floats, lists and dicts are left to the parameter \<open>repr\<close>.
\<close>

fun py_format :: "('f json \<Rightarrow> string) \<Rightarrow> 'f json \<Rightarrow> string" where
  "py_format repr (JStr s) = s"
| "py_format repr JNull = ''None''"
| "py_format repr (JBool b) = (if b then ''True'' else ''False'')"
| "py_format repr (JInt i) = (if i < 0 then CHR ''-'' # dec (nat (- i)) else dec (nat i))"
| "py_format repr v = repr v"

section \<open>\<^verbatim>\<open>extract_addresses\<close>\<close>

text \<open>\<^verbatim>\<open>f"{obj.get(k, '')}"\<close>\<close>

definition field :: "('f json \<Rightarrow> string) \<Rightarrow> 'f json \<Rightarrow> string \<Rightarrow> py_error + string" where
  "field repr obj k = andthen (py_get obj k (JStr [])) (\<lambda>v. Inr (py_format repr v))"

text \<open>Line 31: the subject address, four fields of \<^verbatim>\<open>cover\<close>.\<close>

definition subject_addr :: "('f json \<Rightarrow> string) \<Rightarrow> 'f json \<Rightarrow> py_error + string" where
  "subject_addr repr cover =
     andthen (field repr cover ''address_street'') (\<lambda>street.
     andthen (field repr cover ''address_city'') (\<lambda>city.
     andthen (field repr cover ''address_state'') (\<lambda>state.
     andthen (field repr cover ''address_zip'') (\<lambda>zip.
       Inr (street @ '', '' @ city @ '', '' @ state @ '' '' @ zip)))))"

text \<open>Lines 36, 42, 49: \<^verbatim>\<open>city_state\<close>, again from \<^verbatim>\<open>cover\<close>.\<close>

definition city_state :: "('f json \<Rightarrow> string) \<Rightarrow> 'f json \<Rightarrow> py_error + string" where
  "city_state repr cover =
     andthen (field repr cover ''address_city'') (\<lambda>city.
     andthen (field repr cover ''address_state'') (\<lambda>state.
     andthen (field repr cover ''address_zip'') (\<lambda>zip.
       Inr (city @ '', '' @ state @ '' '' @ zip))))"

text \<open>
  The body shared by the three \<^verbatim>\<open>for i, comp in enumerate(...)\<close> loops: \<open>lab\<close> and
  \<open>pth\<close> build the label and the path from the running index \<open>i\<close>.
\<close>

fun comp_loop ::
  "('f json \<Rightarrow> string) \<Rightarrow> 'f json \<Rightarrow> (nat \<Rightarrow> string) \<Rightarrow> (nat \<Rightarrow> step list) \<Rightarrow>
   nat \<Rightarrow> 'f json list \<Rightarrow> py_error + entry list" where
  "comp_loop repr cover lab pth i [] = Inr []"
| "comp_loop repr cover lab pth i (cmp # rest) =
     andthen (city_state repr cover) (\<lambda>cs.
     andthen (field repr cmp ''address'') (\<lambda>street.
     andthen (comp_loop repr cover lab pth (Suc i) rest) (\<lambda>more.
       Inr ((lab i, street @ '', '' @ cs, pth i) # more))))"

definition sale_label :: "nat \<Rightarrow> string" where
  "sale_label i = ''sale_comp_'' @ dec i"

definition sale_path :: "nat \<Rightarrow> step list" where
  "sale_path i = [Key ''sale_comps'', Key ''comps'', Idx i, Key ''coords'']"

definition active_label :: "nat \<Rightarrow> string" where
  "active_label i = ''active_comp_'' @ dec i"

definition active_path :: "nat \<Rightarrow> step list" where
  "active_path i = [Key ''active_comps'', Key ''comps'', Idx i, Key ''coords'']"

definition rent_label :: "nat \<Rightarrow> nat \<Rightarrow> string" where
  "rent_label gi ci = ''rent_comp_'' @ dec gi @ ''_'' @ dec ci"

definition rent_path :: "nat \<Rightarrow> nat \<Rightarrow> step list" where
  "rent_path gi ci =
     [Key ''rent_comps'', Key ''groups'', Idx gi, Key ''comps'', Idx ci, Key ''coords'']"

text \<open>Lines 47-51: the outer loop over the rent groups.\<close>

fun group_loop ::
  "('f json \<Rightarrow> string) \<Rightarrow> 'f json \<Rightarrow> nat \<Rightarrow> 'f json list \<Rightarrow> py_error + entry list" where
  "group_loop repr cover gi [] = Inr []"
| "group_loop repr cover gi (grp # rest) =
     andthen (py_get grp ''comps'' (JArr [])) (\<lambda>cv.
     andthen (py_iter cv) (\<lambda>comps.
     andthen (comp_loop repr cover (rent_label gi) (rent_path gi) 0 comps) (\<lambda>here.
     andthen (group_loop repr cover (Suc gi) rest) (\<lambda>more.
       Inr (here @ more)))))"

text \<open>\<^verbatim>\<open>data.get(section, {}).get(inner, [])\<close> handed to \<^verbatim>\<open>enumerate\<close>.\<close>

definition section_items :: "'f json \<Rightarrow> string \<Rightarrow> string \<Rightarrow> py_error + 'f json list" where
  "section_items data section inner =
     andthen (py_get data section (JObj [])) (\<lambda>sec.
     andthen (py_get sec inner (JArr [])) (\<lambda>v. py_iter v))"

definition extract_addresses :: "('f json \<Rightarrow> string) \<Rightarrow> 'f json \<Rightarrow> py_error + entry list" where
  "extract_addresses repr data =
     andthen (py_get data ''cover'' (JObj [])) (\<lambda>cover.
     andthen (subject_addr repr cover) (\<lambda>subj.
     andthen (section_items data ''sale_comps'' ''comps'') (\<lambda>sales.
     andthen (comp_loop repr cover sale_label sale_path 0 sales) (\<lambda>sale_entries.
     andthen (section_items data ''active_comps'' ''comps'') (\<lambda>actives.
     andthen (comp_loop repr cover active_label active_path 0 actives) (\<lambda>active_entries.
     andthen (section_items data ''rent_comps'' ''groups'') (\<lambda>groups.
     andthen (group_loop repr cover 0 groups) (\<lambda>rent_entries.
       Inr ((''subject'', subj, [Key ''coordinates'', Key ''subject''])
            # sale_entries @ active_entries @ rent_entries)))))))))"

section \<open>\<^verbatim>\<open>geocode_all\<close>\<close>

text \<open>
  One call of \<^verbatim>\<open>geolocator.geocode(addr)\<close>: a location with latitude and longitude,
  \<^verbatim>\<open>None\<close>, or an exception with its message. The geocoder is outside the script; it is
  a parameter, and its answer may depend on the position of the call in the run as well
  as on the address text.
\<close>

datatype 'f response = Found 'f 'f | NotFound | Raised string

text \<open>
  The value stored under a label in \<^verbatim>\<open>results\<close>. \<^verbatim>\<open>coords\<close> is the list
  \<^verbatim>\<open>[lat, lon]\<close> or \<^verbatim>\<open>None\<close> (\<open>JNull\<close>); the key \<^verbatim>\<open>error\<close> is present only after an
  exception.
\<close>

record 'f outcome =
  address :: string
  coords :: "'f json"
  json_path :: "step list"
  error :: "string option"

text \<open>\<^verbatim>\<open>d[k] = v\<close> on a dict: an existing key keeps its place, a new key goes last.\<close>

fun dict_set :: "('k \<times> 'v) list \<Rightarrow> 'k \<Rightarrow> 'v \<Rightarrow> ('k \<times> 'v) list" where
  "dict_set [] k v = [(k, v)]"
| "dict_set ((k', v') # kvs) k v =
     (if k' = k then (k, v) # kvs else (k', v') # dict_set kvs k v)"

text \<open>The three progress lines: \<^verbatim>\<open>OK\<close>, \<^verbatim>\<open>FAIL ... NOT FOUND\<close> and \<^verbatim>\<open>ERR\<close>.\<close>

datatype 'f line =
    LineOK string 'f 'f string
  | LineFail string string
  | LineErr string string string

text \<open>
  The state of the loop: the \<^verbatim>\<open>results\<close> dict, the two counters, the calls of
  \<^verbatim>\<open>time.sleep(0.5)\<close> made so far, and the lines printed so far.
\<close>

record 'f run =
  results :: "(string \<times> 'f outcome) list"
  success :: nat
  failed :: nat
  sleeps :: nat
  printed :: "'f line list"

text \<open>
  Lines 67-82, the body of the loop for the \<open>k\<close>-th entry. \<open>rnd\<close> is Python's
  \<^verbatim>\<open>round(x, ndigits)\<close> on floats. The \<^verbatim>\<open>time.sleep(0.5)\<close> of line 78 stands inside the
  \<^verbatim>\<open>try\<close> after the \<^verbatim>\<open>if/else\<close>: the \<^verbatim>\<open>except\<close> branch does not reach it.
  A location object is always true in \<^verbatim>\<open>if loc\<close>. This is the loop on a console that
  writes every line and with a geocoder whose exceptions are all of class \<^verbatim>\<open>Exception\<close>;
  \<open>geocode_step_io\<close> below is the loop with the exceptions that \<^verbatim>\<open>print\<close> raises and
  with those that \<^verbatim>\<open>except Exception\<close> lets pass.
\<close>

definition geocode_step ::
  "(nat \<Rightarrow> string \<Rightarrow> 'f response) \<Rightarrow> ('f \<Rightarrow> nat \<Rightarrow> 'f) \<Rightarrow> nat \<Rightarrow> entry \<Rightarrow> 'f run \<Rightarrow> 'f run" where
  "geocode_step geocode rnd k e st =
     (case e of (label, addr, path) \<Rightarrow>
       (case geocode k addr of
          Found lat lon \<Rightarrow>
            st\<lparr>results := dict_set (results st) label
                   \<lparr>address = addr, coords = JArr [JFloat (rnd lat 6), JFloat (rnd lon 6)],
                    json_path = path, error = None\<rparr>,
               printed := printed st @ [LineOK label (rnd lat 6) (rnd lon 6) addr],
               success := Suc (success st),
               sleeps := Suc (sleeps st)\<rparr>
        | NotFound \<Rightarrow>
            st\<lparr>results := dict_set (results st) label
                   \<lparr>address = addr, coords = JNull, json_path = path, error = None\<rparr>,
               printed := printed st @ [LineFail label addr],
               failed := Suc (failed st),
               sleeps := Suc (sleeps st)\<rparr>
        | Raised msg \<Rightarrow>
            st\<lparr>results := dict_set (results st) label
                   \<lparr>address = addr, coords = JNull, json_path = path, error = Some msg\<rparr>,
               printed := printed st @ [LineErr label msg addr],
               failed := Suc (failed st)\<rparr>))"

fun geocode_loop ::
  "(nat \<Rightarrow> string \<Rightarrow> 'f response) \<Rightarrow> ('f \<Rightarrow> nat \<Rightarrow> 'f) \<Rightarrow> nat \<Rightarrow> entry list \<Rightarrow> 'f run \<Rightarrow> 'f run" where
  "geocode_loop geocode rnd k [] st = st"
| "geocode_loop geocode rnd k (e # es) st =
     geocode_loop geocode rnd (Suc k) es (geocode_step geocode rnd k e st)"

definition geocode_all ::
  "(nat \<Rightarrow> string \<Rightarrow> 'f response) \<Rightarrow> ('f \<Rightarrow> nat \<Rightarrow> 'f) \<Rightarrow> entry list \<Rightarrow> 'f run" where
  "geocode_all geocode rnd addresses =
     geocode_loop geocode rnd 0 addresses
       \<lparr>results = [], success = 0, failed = 0, sleeps = 0, printed = []\<rparr>"

text \<open>Line 84: \<^verbatim>\<open>Total: ... | Success: ... | Failed: ...\<close>\<close>

definition summary :: "entry list \<Rightarrow> 'f run \<Rightarrow> nat \<times> nat \<times> nat" where
  "summary addresses st = (length addresses, success st, failed st)"

section \<open>\<^verbatim>\<open>geocode_all\<close> with the exceptions that leave it\<close>

text \<open>
  What \<^verbatim>\<open>geocode_all\<close> prints: the header of line 61, the progress line of an entry, the
  summary of line 84.
\<close>

datatype 'f console = Header nat | Progress "'f line" | Total nat nat nat

text \<open>An exception that leaves \<^verbatim>\<open>geocode_all\<close>, by its text: the function returns nothing.\<close>

datatype abort = Uncaught string

text \<open>
  Lines 79-82, the handler of \<^verbatim>\<open>except Exception as e\<close>, with \<open>msg\<close> for \<^verbatim>\<open>str(e)\<close>. The
  console is the parameter \<open>pr\<close>: \<open>pr c = None\<close> when \<^verbatim>\<open>print\<close> writes the line \<open>c\<close>, and
  \<open>pr c = Some m\<close> when \<^verbatim>\<open>print\<close> raises an exception of text \<open>m\<close>. The \<^verbatim>\<open>print\<close> of line 81
  stands in the handler, outside the \<^verbatim>\<open>try\<close>: what it raises leaves the function, after
  the assignment of line 80.
\<close>

definition on_exception ::
  "('f console \<Rightarrow> string option) \<Rightarrow> string \<Rightarrow> string \<Rightarrow> step list \<Rightarrow> string \<Rightarrow> 'f run \<Rightarrow>
   abort + 'f run" where
  "on_exception pr label addr path msg st =
     (case pr (Progress (LineErr label msg addr)) of
        Some m \<Rightarrow> Inl (Uncaught m)
      | None \<Rightarrow>
          Inr (st\<lparr>results := dict_set (results st) label
                     \<lparr>address = addr, coords = JNull, json_path = path, error = Some msg\<rparr>,
                  printed := printed st @ [LineErr label msg addr],
                  failed := Suc (failed st)\<rparr>))"

text \<open>
  Lines 67-82 again, now with the exceptions. The geocoder answers \<open>Inr\<close> a response as
  before (\<open>Raised\<close> is an exception of class \<^verbatim>\<open>Exception\<close>), or \<open>Inl\<close> the name of an
  exception that is not of class \<^verbatim>\<open>Exception\<close> (\<^verbatim>\<open>KeyboardInterrupt\<close>, \<^verbatim>\<open>SystemExit\<close>), which
  \<^verbatim>\<open>except Exception\<close> lets pass. A \<^verbatim>\<open>print\<close> of the \<^verbatim>\<open>try\<close> block that raises comes after
  the assignment to \<^verbatim>\<open>results[label]\<close> and before the counter and \<^verbatim>\<open>time.sleep\<close>; the
  handler then assigns \<^verbatim>\<open>results[label]\<close> once more. \<^verbatim>\<open>round\<close> on the two floats of a
  location and \<^verbatim>\<open>time.sleep(0.5)\<close> raise nothing themselves.
\<close>

definition geocode_step_io ::
  "(nat \<Rightarrow> string \<Rightarrow> string + 'f response) \<Rightarrow> ('f console \<Rightarrow> string option) \<Rightarrow>
   ('f \<Rightarrow> nat \<Rightarrow> 'f) \<Rightarrow> nat \<Rightarrow> entry \<Rightarrow> 'f run \<Rightarrow> abort + 'f run" where
  "geocode_step_io geocode pr rnd k e st =
     (case e of (label, addr, path) \<Rightarrow>
       (case geocode k addr of
          Inl name \<Rightarrow> Inl (Uncaught name)
        | Inr (Found lat lon) \<Rightarrow>
            (case pr (Progress (LineOK label (rnd lat 6) (rnd lon 6) addr)) of
               Some m \<Rightarrow>
                 on_exception pr label addr path m
                   (st\<lparr>results := dict_set (results st) label
                          \<lparr>address = addr,
                           coords = JArr [JFloat (rnd lat 6), JFloat (rnd lon 6)],
                           json_path = path, error = None\<rparr>\<rparr>)
             | None \<Rightarrow>
                 Inr (st\<lparr>results := dict_set (results st) label
                            \<lparr>address = addr,
                             coords = JArr [JFloat (rnd lat 6), JFloat (rnd lon 6)],
                             json_path = path, error = None\<rparr>,
                         printed := printed st @ [LineOK label (rnd lat 6) (rnd lon 6) addr],
                         success := Suc (success st),
                         sleeps := Suc (sleeps st)\<rparr>))
        | Inr NotFound \<Rightarrow>
            (case pr (Progress (LineFail label addr)) of
               Some m \<Rightarrow>
                 on_exception pr label addr path m
                   (st\<lparr>results := dict_set (results st) label
                          \<lparr>address = addr, coords = JNull, json_path = path, error = None\<rparr>\<rparr>)
             | None \<Rightarrow>
                 Inr (st\<lparr>results := dict_set (results st) label
                            \<lparr>address = addr, coords = JNull, json_path = path, error = None\<rparr>,
                         printed := printed st @ [LineFail label addr],
                         failed := Suc (failed st),
                         sleeps := Suc (sleeps st)\<rparr>))
        | Inr (Raised msg) \<Rightarrow> on_exception pr label addr path msg st))"

fun geocode_loop_io ::
  "(nat \<Rightarrow> string \<Rightarrow> string + 'f response) \<Rightarrow> ('f console \<Rightarrow> string option) \<Rightarrow>
   ('f \<Rightarrow> nat \<Rightarrow> 'f) \<Rightarrow> nat \<Rightarrow> entry list \<Rightarrow> 'f run \<Rightarrow> abort + 'f run" where
  "geocode_loop_io geocode pr rnd k [] st = Inr st"
| "geocode_loop_io geocode pr rnd k (e # es) st =
     andthen (geocode_step_io geocode pr rnd k e st)
       (\<lambda>st'. geocode_loop_io geocode pr rnd (Suc k) es st')"

text \<open>Lines 56-85: the header, the loop, the summary; the run that is returned.\<close>

definition geocode_all_io ::
  "(nat \<Rightarrow> string \<Rightarrow> string + 'f response) \<Rightarrow> ('f console \<Rightarrow> string option) \<Rightarrow>
   ('f \<Rightarrow> nat \<Rightarrow> 'f) \<Rightarrow> entry list \<Rightarrow> abort + 'f run" where
  "geocode_all_io geocode pr rnd addresses =
     (case pr (Header (length addresses)) of
        Some m \<Rightarrow> Inl (Uncaught m)
      | None \<Rightarrow>
          andthen (geocode_loop_io geocode pr rnd 0 addresses
                     \<lparr>results = [], success = 0, failed = 0, sleeps = 0, printed = []\<rparr>)
            (\<lambda>st. case pr (Total (length addresses) (success st) (failed st)) of
                    Some m \<Rightarrow> Inl (Uncaught m)
                  | None \<Rightarrow> Inr st))"

text \<open>A geocoder all of whose exceptions are of class \<^verbatim>\<open>Exception\<close>.\<close>

definition caught :: "(nat \<Rightarrow> string \<Rightarrow> 'f response) \<Rightarrow> nat \<Rightarrow> string \<Rightarrow> string + 'f response" where
  "caught g k addr = Inr (g k addr)"

section \<open>\<^verbatim>\<open>update_json\<close>\<close>

text \<open>\<^verbatim>\<open>obj[key]\<close> as an expression.\<close>

fun getitem :: "'f json \<Rightarrow> step \<Rightarrow> py_error + 'f json" where
  "getitem (JObj kvs) k = (case map_of kvs k of None \<Rightarrow> Inl KeyError | Some v \<Rightarrow> Inr v)"
| "getitem (JArr xs) (Idx i) = (if i < length xs then Inr (xs ! i) else Inl IndexError)"
| "getitem (JArr xs) (Key s) = Inl TypeError"
| "getitem (JStr s) (Idx i) = (if i < length s then Inr (JStr [s ! i]) else Inl IndexError)"
| "getitem (JStr s) (Key k) = Inl TypeError"
| "getitem _ k = Inl TypeError"

text \<open>\<^verbatim>\<open>obj[key] = v\<close>; the result is the container after the assignment.\<close>

fun setitem :: "'f json \<Rightarrow> step \<Rightarrow> 'f json \<Rightarrow> py_error + 'f json" where
  "setitem (JObj kvs) k v = Inr (JObj (dict_set kvs k v))"
| "setitem (JArr xs) (Idx i) v =
     (if i < length xs then Inr (JArr (xs[i := v])) else Inl IndexError)"
| "setitem (JArr xs) (Key s) v = Inl TypeError"
| "setitem _ k v = Inl TypeError"

text \<open>
  Lines 95-98 for one result. The script walks \<^verbatim>\<open>path[:-1]\<close> by \<^verbatim>\<open>obj = obj[key]\<close> and
  assigns \<^verbatim>\<open>obj[path[-1]]\<close> in place. With values instead of references, the updated
  child is put back into its parent on the way out; the exceptions arise in the same
  order. An empty path fails at \<^verbatim>\<open>path[-1]\<close>. A character read out of a string is a new
  string, and no string accepts an assignment, so a walk through a string always ends in
  an error.

  The document is a tree as \<^verbatim>\<open>json.load\<close> builds it, and every result has a coordinate
  list of its own, so no container is reachable twice and the value returned is the
  value the in-place assignments leave behind. What \<^verbatim>\<open>update_json\<close> returns is the
  mutated \<^verbatim>\<open>data\<close>; when it raises, the model returns the error alone.
\<close>

fun set_path :: "'f json \<Rightarrow> step list \<Rightarrow> 'f json \<Rightarrow> py_error + 'f json" where
  "set_path obj [] v = Inl IndexError"
| "set_path obj [k] v = setitem obj k v"
| "set_path obj (k # ks) v =
     andthen (getitem obj k) (\<lambda>child.
     andthen (set_path child ks v) (\<lambda>child'. setitem obj k child'))"

fun update_json :: "'f json \<Rightarrow> (string \<times> 'f outcome) list \<Rightarrow> py_error + 'f json" where
  "update_json data [] = Inr data"
| "update_json data ((label, result) # rest) =
     (if coords result = JNull then update_json data rest
      else andthen (set_path data (json_path result) (coords result))
             (\<lambda>data'. update_json data' rest))"

text \<open>Reading a location: \<^verbatim>\<open>obj[k1][k2]...\<close>\<close>

fun get_path :: "'f json \<Rightarrow> step list \<Rightarrow> py_error + 'f json" where
  "get_path obj [] = Inr obj"
| "get_path obj (k # ks) = andthen (getitem obj k) (\<lambda>child. get_path child ks)"

section \<open>Locations of the document\<close>

text \<open>
  Two paths diverge when they differ at a position that both have: neither location
  contains the other.
\<close>

fun diverge :: "step list \<Rightarrow> step list \<Rightarrow> bool" where
  "diverge (a # p) (b # q) = (if a = b then diverge p q else True)"
| "diverge _ _ = False"

text \<open>Paths that diverge pairwise.\<close>

fun separated :: "step list list \<Rightarrow> bool" where
  "separated [] = True"
| "separated (p # ps) = (list_all (diverge p) ps \<and> separated ps)"

text \<open>The paths \<^verbatim>\<open>update_json\<close> assigns at: those of the results with coordinates.\<close>

definition written_paths :: "(string \<times> 'f outcome) list \<Rightarrow> step list list" where
  "written_paths rs = map json_path (filter (\<lambda>oc. coords oc \<noteq> JNull) (map snd rs))"

section \<open>Answers and outcomes of a run\<close>

text \<open>The answers the geocoder gives along a run that starts with call number \<open>k\<close>.\<close>

fun responses :: "(nat \<Rightarrow> string \<Rightarrow> 'f response) \<Rightarrow> nat \<Rightarrow> entry list \<Rightarrow> 'f response list" where
  "responses geocode k [] = []"
| "responses geocode k ((label, addr, path) # es) =
     geocode k addr # responses geocode (Suc k) es"

fun is_found :: "'f response \<Rightarrow> bool" where
  "is_found (Found lat lon) = True"
| "is_found _ = False"

fun is_not_found :: "'f response \<Rightarrow> bool" where
  "is_not_found NotFound = True"
| "is_not_found _ = False"

fun is_raised :: "'f response \<Rightarrow> bool" where
  "is_raised (Raised msg) = True"
| "is_raised _ = False"

text \<open>The dict literal of lines 71, 75 and 80 that belongs to one answer.\<close>

fun outcome_of :: "('f \<Rightarrow> nat \<Rightarrow> 'f) \<Rightarrow> 'f response \<Rightarrow> string \<Rightarrow> step list \<Rightarrow> 'f outcome" where
  "outcome_of rnd (Found lat lon) addr path =
     \<lparr>address = addr, coords = JArr [JFloat (rnd lat 6), JFloat (rnd lon 6)],
      json_path = path, error = None\<rparr>"
| "outcome_of rnd NotFound addr path =
     \<lparr>address = addr, coords = JNull, json_path = path, error = None\<rparr>"
| "outcome_of rnd (Raised msg) addr path =
     \<lparr>address = addr, coords = JNull, json_path = path, error = Some msg\<rparr>"

text \<open>One labelled outcome per entry, in the order of the entries.\<close>

fun expected_outcomes ::
  "(nat \<Rightarrow> string \<Rightarrow> 'f response) \<Rightarrow> ('f \<Rightarrow> nat \<Rightarrow> 'f) \<Rightarrow> nat \<Rightarrow> entry list \<Rightarrow>
   (string \<times> 'f outcome) list" where
  "expected_outcomes geocode rnd k [] = []"
| "expected_outcomes geocode rnd k ((label, addr, path) # es) =
     (label, outcome_of rnd (geocode k addr) addr path) # expected_outcomes geocode rnd (Suc k) es"

section \<open>The entries a document calls for\<close>

text \<open>The value under a key of the document, or the default where the key or the dict is missing.\<close>

fun lookup_or :: "'f json \<Rightarrow> string \<Rightarrow> 'f json \<Rightarrow> 'f json" where
  "lookup_or (JObj kvs) k dflt = (case map_of kvs (Key k) of None \<Rightarrow> dflt | Some v \<Rightarrow> v)"
| "lookup_or _ k dflt = dflt"

text \<open>The elements of a list of the document; a value that is not a list has none.\<close>

fun elements :: "'f json \<Rightarrow> 'f json list" where
  "elements (JArr xs) = xs"
| "elements _ = []"

text \<open>
  A value of the document as it stands in an address text: a string as it is, \<^verbatim>\<open>null\<close>
  as \<^verbatim>\<open>None\<close>, a boolean as \<^verbatim>\<open>True\<close> or \<^verbatim>\<open>False\<close>, an integer in decimal digits with its
  sign; floats, lists and dicts as \<open>repr\<close> writes them.
\<close>

fun as_text :: "('f json \<Rightarrow> string) \<Rightarrow> 'f json \<Rightarrow> string" where
  "as_text repr (JStr s) = s"
| "as_text repr JNull = ''None''"
| "as_text repr (JBool True) = ''True''"
| "as_text repr (JBool False) = ''False''"
| "as_text repr (JInt i) = (if 0 \<le> i then dec (nat i) else ''-'' @ dec (nat (- i)))"
| "as_text repr (JFloat x) = repr (JFloat x)"
| "as_text repr (JArr xs) = repr (JArr xs)"
| "as_text repr (JObj kvs) = repr (JObj kvs)"

text \<open>An optional field as text: a missing field is the empty string.\<close>

fun field_text :: "('f json \<Rightarrow> string) \<Rightarrow> 'f json \<Rightarrow> string \<Rightarrow> string" where
  "field_text repr (JObj kvs) k =
     (case map_of kvs (Key k) of None \<Rightarrow> [] | Some v \<Rightarrow> as_text repr v)"
| "field_text repr _ k = []"

text \<open>The list \<^verbatim>\<open>d[sec][inner]\<close> of the document, empty where it is missing.\<close>

definition section_seq :: "'f json \<Rightarrow> string \<Rightarrow> string \<Rightarrow> 'f json list" where
  "section_seq d sec inner = elements (lookup_or (lookup_or d sec (JObj [])) inner (JArr []))"

definition group_comps :: "'f json \<Rightarrow> 'f json list" where
  "group_comps grp = elements (lookup_or grp ''comps'' (JArr []))"

definition cover_of :: "'f json \<Rightarrow> 'f json" where
  "cover_of d = lookup_or d ''cover'' (JObj [])"

definition subject_text :: "('f json \<Rightarrow> string) \<Rightarrow> 'f json \<Rightarrow> string" where
  "subject_text repr cover =
     field_text repr cover ''address_street'' @ '', '' @ field_text repr cover ''address_city''
     @ '', '' @ field_text repr cover ''address_state'' @ '' '' @ field_text repr cover ''address_zip''"

text \<open>A comparable's address text: its own \<^verbatim>\<open>address\<close>, then city, state and zip of the cover.\<close>

definition comp_addr :: "('f json \<Rightarrow> string) \<Rightarrow> 'f json \<Rightarrow> 'f json \<Rightarrow> string" where
  "comp_addr repr cover c =
     field_text repr c ''address'' @ '', '' @ field_text repr cover ''address_city''
     @ '', '' @ field_text repr cover ''address_state'' @ '' '' @ field_text repr cover ''address_zip''"

text \<open>One entry per comparable, numbered from \<open>i\<close>.\<close>

definition comp_entries ::
  "('f json \<Rightarrow> string) \<Rightarrow> 'f json \<Rightarrow> (nat \<Rightarrow> string) \<Rightarrow> (nat \<Rightarrow> step list) \<Rightarrow> nat \<Rightarrow>
   'f json list \<Rightarrow> entry list" where
  "comp_entries repr cover lab pth i items =
     map (\<lambda>(j, c). (lab j, comp_addr repr cover c, pth j)) (enumerate i items)"

definition rent_entries :: "('f json \<Rightarrow> string) \<Rightarrow> 'f json \<Rightarrow> nat \<Rightarrow> 'f json list \<Rightarrow> entry list" where
  "rent_entries repr cover gi groups =
     concat (map (\<lambda>(g, grp). comp_entries repr cover (rent_label g) (rent_path g) 0 (group_comps grp))
                 (enumerate gi groups))"

text \<open>The entries in the fixed order: subject, sale comparables, active comparables, rent comparables by group.\<close>

definition expected_entries :: "('f json \<Rightarrow> string) \<Rightarrow> 'f json \<Rightarrow> entry list" where
  "expected_entries repr d =
     (''subject'', subject_text repr (cover_of d), [Key ''coordinates'', Key ''subject''])
     # comp_entries repr (cover_of d) sale_label sale_path 0 (section_seq d ''sale_comps'' ''comps'')
     @ comp_entries repr (cover_of d) active_label active_path 0
         (section_seq d ''active_comps'' ''comps'')
     @ rent_entries repr (cover_of d) 0 (section_seq d ''rent_comps'' ''groups'')"

text \<open>A well-formed document: every section that is present is an object, its list is a list, and every comparable and every rent group is an object.\<close>

fun is_obj :: "'f json \<Rightarrow> bool" where
  "is_obj (JObj kvs) = True"
| "is_obj _ = False"

fun obj_list :: "'f json \<Rightarrow> bool" where
  "obj_list (JArr xs) = list_all is_obj xs"
| "obj_list _ = False"

definition wf_group :: "'f json \<Rightarrow> bool" where
  "wf_group grp = (is_obj grp \<and> obj_list (lookup_or grp ''comps'' (JArr [])))"

fun group_list :: "'f json \<Rightarrow> bool" where
  "group_list (JArr gs) = list_all wf_group gs"
| "group_list _ = False"

definition wf_doc :: "'f json \<Rightarrow> bool" where
  "wf_doc d =
     (is_obj d \<and> is_obj (lookup_or d ''cover'' (JObj []))
      \<and> is_obj (lookup_or d ''sale_comps'' (JObj []))
      \<and> obj_list (lookup_or (lookup_or d ''sale_comps'' (JObj [])) ''comps'' (JArr []))
      \<and> is_obj (lookup_or d ''active_comps'' (JObj []))
      \<and> obj_list (lookup_or (lookup_or d ''active_comps'' (JObj [])) ''comps'' (JArr []))
      \<and> is_obj (lookup_or d ''rent_comps'' (JObj []))
      \<and> group_list (lookup_or (lookup_or d ''rent_comps'' (JObj [])) ''groups'' (JArr [])))"

section \<open>A sample run\<close>

text \<open>
  A document with a cover, one sale comparable, one rent group with one comparable and no
  \<^verbatim>\<open>active_comps\<close> section; a geocoder that finds the first address, does not find the
  second and raises on every later call. Coordinates are written in millionths of a degree.
\<close>

definition sample_doc :: "int json" where
  "sample_doc =
     JObj [(Key ''cover'', JObj [(Key ''address_street'', JStr ''1 Main St''),
                                 (Key ''address_city'', JStr ''Metropolis''),
                                 (Key ''address_state'', JStr ''NY''),
                                 (Key ''address_zip'', JStr ''10001'')]),
           (Key ''coordinates'', JObj []),
           (Key ''sale_comps'', JObj [(Key ''comps'', JArr [JObj [(Key ''address'', JStr ''5 Elm St'')]])]),
           (Key ''rent_comps'',
              JObj [(Key ''groups'', JArr [JObj [(Key ''comps'', JArr [JObj [(Key ''address'', JStr ''9 Oak Ave'')]])]])])]"

definition sample_entries :: "entry list" where
  "sample_entries =
     [(''subject'', ''1 Main St, Metropolis, NY 10001'', [Key ''coordinates'', Key ''subject'']),
      (''sale_comp_0'', ''5 Elm St, Metropolis, NY 10001'',
         [Key ''sale_comps'', Key ''comps'', Idx 0, Key ''coords'']),
      (''rent_comp_0_0'', ''9 Oak Ave, Metropolis, NY 10001'',
         [Key ''rent_comps'', Key ''groups'', Idx 0, Key ''comps'', Idx 0, Key ''coords''])]"

definition no_repr :: "int json \<Rightarrow> string" where
  "no_repr v = []"

text \<open>
  A listing with two sale comparables, no \<^verbatim>\<open>active_comps\<close> section and two rent groups of
  two and one comparables. The zip of the cover and the address of the second sale
  comparable are numbers; that comparable has a city and a zip of its own; the second
  comparable of the first rent group has no \<^verbatim>\<open>address\<close>.
\<close>

definition listing_doc :: "int json" where
  "listing_doc =
     JObj [(Key ''cover'', JObj [(Key ''address_street'', JStr ''1 Main St''),
                                 (Key ''address_city'', JStr ''Metropolis''),
                                 (Key ''address_state'', JStr ''NY''),
                                 (Key ''address_zip'', JInt 10001)]),
           (Key ''coordinates'', JObj []),
           (Key ''sale_comps'',
              JObj [(Key ''comps'',
                     JArr [JObj [(Key ''address'', JStr ''5 Elm St'')],
                           JObj [(Key ''address'', JInt (- 5)),
                                 (Key ''address_city'', JStr ''Gotham''),
                                 (Key ''address_zip'', JStr ''99999'')]])]),
           (Key ''rent_comps'',
              JObj [(Key ''groups'',
                     JArr [JObj [(Key ''comps'',
                                  JArr [JObj [(Key ''address'', JStr ''9 Oak Ave'')],
                                        JObj [(Key ''address_city'', JStr ''Gotham'')]])],
                           JObj [(Key ''comps'',
                                  JArr [JObj [(Key ''address'', JStr ''7 Pine Rd'')]])]])])]"

definition listing_entries :: "entry list" where
  "listing_entries =
     [(''subject'', ''1 Main St, Metropolis, NY 10001'', [Key ''coordinates'', Key ''subject'']),
      (''sale_comp_0'', ''5 Elm St, Metropolis, NY 10001'',
         [Key ''sale_comps'', Key ''comps'', Idx 0, Key ''coords'']),
      (''sale_comp_1'', ''-5, Metropolis, NY 10001'',
         [Key ''sale_comps'', Key ''comps'', Idx 1, Key ''coords'']),
      (''rent_comp_0_0'', ''9 Oak Ave, Metropolis, NY 10001'',
         [Key ''rent_comps'', Key ''groups'', Idx 0, Key ''comps'', Idx 0, Key ''coords'']),
      (''rent_comp_0_1'', '', Metropolis, NY 10001'',
         [Key ''rent_comps'', Key ''groups'', Idx 0, Key ''comps'', Idx 1, Key ''coords'']),
      (''rent_comp_1_0'', ''7 Pine Rd, Metropolis, NY 10001'',
         [Key ''rent_comps'', Key ''groups'', Idx 1, Key ''comps'', Idx 0, Key ''coords''])]"

definition no_round :: "int \<Rightarrow> nat \<Rightarrow> int" where
  "no_round x ndigits = x"

fun sample_geocoder :: "nat \<Rightarrow> string \<Rightarrow> int response" where
  "sample_geocoder 0 addr = Found 40712800 (- 74006000)"
| "sample_geocoder (Suc 0) addr = NotFound"
| "sample_geocoder (Suc (Suc k)) addr = Raised ''timed out''"

definition never_found :: "nat \<Rightarrow> string \<Rightarrow> int response" where
  "never_found k addr = NotFound"

definition always_raises :: "nat \<Rightarrow> string \<Rightarrow> int response" where
  "always_raises k addr = Raised ''timed out''"



text \<open>
  A document whose street is the three bytes of a lone surrogate (\<^verbatim>\<open>"\ud800"\<close> in the JSON
  file), and a console in UTF-8 that cannot write a line with such an address.
\<close>

definition surrogate_doc :: "int json" where
  "surrogate_doc =
     JObj [(Key ''cover'', JObj [(Key ''address_street'', JStr [CHR 0xED, CHR 0xA0, CHR 0x80])]),
           (Key ''coordinates'', JObj [])]"

definition surrogate_entries :: "entry list" where
  "surrogate_entries =
     [(''subject'', [CHR 0xED, CHR 0xA0, CHR 0x80] @ '', ,  '',
       [Key ''coordinates'', Key ''subject''])]"

fun line_address :: "'f line \<Rightarrow> string" where
  "line_address (LineOK label lat lon addr) = addr"
| "line_address (LineFail label addr) = addr"
| "line_address (LineErr label msg addr) = addr"

fun strict_console :: "int console \<Rightarrow> string option" where
  "strict_console (Progress ln) =
     (if CHR 0xED \<in> set (line_address ln) then Some ''surrogates not allowed'' else None)"
| "strict_console c = None"

definition sample_merged :: "int json" where
  "sample_merged =
     JObj [(Key ''cover'', JObj [(Key ''address_street'', JStr ''1 Main St''),
                                 (Key ''address_city'', JStr ''Metropolis''),
                                 (Key ''address_state'', JStr ''NY''),
                                 (Key ''address_zip'', JStr ''10001'')]),
           (Key ''coordinates'',
              JObj [(Key ''subject'', JArr [JFloat 40712800, JFloat (- 74006000)])]),
           (Key ''sale_comps'', JObj [(Key ''comps'', JArr [JObj [(Key ''address'', JStr ''5 Elm St'')]])]),
           (Key ''rent_comps'',
              JObj [(Key ''groups'', JArr [JObj [(Key ''comps'', JArr [JObj [(Key ''address'', JStr ''9 Oak Ave'')]])]])])]"

text \<open>
  Two results whose paths do not diverge: the second is written at the parent of the
  first.
\<close>

definition nested_results :: "(string \<times> int outcome) list" where
  "nested_results =
     [(''subject'', \<lparr>address = ''1 Main St'', coords = JArr [JFloat 1, JFloat 2],
                     json_path = [Key ''coordinates'', Key ''subject''], error = None\<rparr>),
      (''other'', \<lparr>address = ''2 Main St'', coords = JArr [JFloat 3, JFloat 4],
                   json_path = [Key ''coordinates''], error = None\<rparr>)]"

section \<open>Paths that can be assigned\<close>

text \<open>Whether \<^verbatim>\<open>obj[k] = v\<close> is accepted: by a dict always, by a list for an index in range.\<close>

fun accepts :: "'f json \<Rightarrow> step \<Rightarrow> bool" where
  "accepts (JObj kvs) k = True"
| "accepts (JArr xs) (Idx i) = (i < length xs)"
| "accepts _ k = False"

text \<open>
  The validation that \<^verbatim>\<open>update_json\<close> leaves to the indexing itself: every step of the
  path but the last resolves, and the container reached accepts the last step.
\<close>

fun valid_path :: "'f json \<Rightarrow> step list \<Rightarrow> bool" where
  "valid_path obj [] = False"
| "valid_path obj [k] = accepts obj k"
| "valid_path obj (k # ks) =
     (case getitem obj k of Inl e \<Rightarrow> False | Inr child \<Rightarrow> valid_path child ks)"

text \<open>A result with coordinates for the subject property.\<close>

definition found_subject :: "int outcome" where
  "found_subject =
     \<lparr>address = ''1 Main St, Metropolis, NY 10001'',
      coords = JArr [JFloat 40712800, JFloat (- 74006000)],
      json_path = [Key ''coordinates'', Key ''subject''], error = None\<rparr>"

section \<open>Assignment at a path\<close>

lemma map_of_dict_set_same: "map_of (dict_set kvs k v) k = Some v"
  by (induction kvs) auto

lemma map_of_dict_set_other: "k \<noteq> b \<Longrightarrow> map_of (dict_set kvs k v) b = map_of kvs b"
  by (induction kvs) auto

lemma dict_set_idem: "dict_set (dict_set kvs k v) k v = dict_set kvs k v"
  by (induction kvs) auto

lemma dict_set_noop: "map_of kvs k = Some v \<Longrightarrow> dict_set kvs k v = kvs"
  by (induction kvs) (auto split: if_splits)

lemma getitem_setitem_same: "setitem obj k v = Inr obj' \<Longrightarrow> getitem obj' k = Inr v"
  by (cases "(obj, k, v)" rule: setitem.cases) (auto simp: map_of_dict_set_same split: if_splits)

lemma getitem_setitem_other:
  "setitem obj k v = Inr obj' \<Longrightarrow> k \<noteq> b \<Longrightarrow> getitem obj' b = getitem obj b"
  by (cases "(obj, k, v)" rule: setitem.cases; cases b)
     (auto simp: map_of_dict_set_other split: if_splits)

lemma setitem_idem: "setitem obj k v = Inr obj' \<Longrightarrow> setitem obj' k v = Inr obj'"
  by (cases "(obj, k, v)" rule: setitem.cases) (auto simp: dict_set_idem split: if_splits)

lemma setitem_noop: "setitem obj k v = Inr obj' \<Longrightarrow> getitem obj k = Inr v \<Longrightarrow> obj' = obj"
  by (cases "(obj, k, v)" rule: setitem.cases) (auto simp: dict_set_noop split: if_splits option.splits)


lemma setitem_stable:
  "setitem obj k v = Inr obj \<Longrightarrow> setitem obj b x = Inr obj' \<Longrightarrow> k \<noteq> b \<Longrightarrow>
   setitem obj' k v = Inr obj'"
proof -
  assume a: "setitem obj k v = Inr obj" "setitem obj b x = Inr obj'" "k \<noteq> b"
  from a(1) have "getitem obj k = Inr v" by (rule getitem_setitem_same)
  with a(2,3) have g: "getitem obj' k = Inr v" by (simp add: getitem_setitem_other)
  from a(1,2) obtain o2 where s: "setitem obj' k v = Inr o2"
    by (cases "(obj, k, v)" rule: setitem.cases; cases "(obj, b, x)" rule: setitem.cases)
       (auto split: if_splits)
  with g show ?thesis using setitem_noop by blast
qed

lemma set_path_idem: "set_path obj p v = Inr obj' \<Longrightarrow> set_path obj' p v = Inr obj'"
proof (induction obj p v arbitrary: obj' rule: set_path.induct)
  case (1 obj v)
  then show ?case by simp
next
  case (2 obj k v)
  then show ?case by (simp add: setitem_idem)
next
  case (3 obj k k' ks v)
  from "3.prems" obtain child child' where
    c: "getitem obj k = Inr child" "set_path child (k' # ks) v = Inr child'"
       "setitem obj k child' = Inr obj'"
    by (cases "getitem obj k"; cases "set_path (projr (getitem obj k)) (k' # ks) v") auto
  from "3.IH"[OF c(2)] have i: "set_path child' (k' # ks) v = Inr child'" .
  from c(3) have g: "getitem obj' k = Inr child'" by (rule getitem_setitem_same)
  from c(3) have "setitem obj' k child' = Inr obj'" by (rule setitem_idem)
  with g i show ?case by simp
qed


lemma set_path_root:
  "set_path obj (k # ks) v = Inr obj' \<Longrightarrow> \<exists>x. setitem obj k x = Inr obj'"
  by (cases ks; cases "getitem obj k"; cases "set_path (projr (getitem obj k)) ks v") auto

lemma set_path_frame:
  "set_path obj p v = Inr obj' \<Longrightarrow> diverge p q \<Longrightarrow> get_path obj' q = get_path obj q"
proof (induction obj p v arbitrary: obj' q rule: set_path.induct)
  case (1 obj v)
  then show ?case by simp
next
  case (2 obj k v)
  then obtain b q' where q: "q = b # q'" "k \<noteq> b"
    by (cases q) (auto split: if_splits)
  with 2 show ?case by (simp add: getitem_setitem_other)
next
  case (3 obj k k' ks v)
  from "3.prems" obtain child child' where
    c: "getitem obj k = Inr child" "set_path child (k' # ks) v = Inr child'"
       "setitem obj k child' = Inr obj'"
    by (cases "getitem obj k"; cases "set_path (projr (getitem obj k)) (k' # ks) v") auto
  from "3.prems"(2) obtain b q' where q: "q = b # q'" by (cases q) auto
  show ?case
  proof (cases "k = b")
    case True
    with "3.prems"(2) q have d: "diverge (k' # ks) q'" by simp
    from "3.IH"[OF c(2) d] have "get_path child' q' = get_path child q'" .
    moreover from c(3) have "getitem obj' k = Inr child'" by (rule getitem_setitem_same)
    ultimately show ?thesis using c(1) q True by simp
  next
    case False
    with c(3) have "getitem obj' b = getitem obj b" by (rule getitem_setitem_other)
    with q show ?thesis by simp
  qed
qed

lemma set_path_stable:
  "set_path obj p v = Inr obj \<Longrightarrow> set_path obj q w = Inr obj' \<Longrightarrow> diverge p q \<Longrightarrow>
   set_path obj' p v = Inr obj'"
proof (induction obj p v arbitrary: obj' q rule: set_path.induct)
  case (1 obj v)
  then show ?case by simp
next
  case (2 obj k v)
  then obtain b q' where q: "q = b # q'" "k \<noteq> b"
    by (cases q) (auto split: if_splits)
  from "2.prems"(2) q obtain x where "setitem obj b x = Inr obj'"
    using set_path_root by blast
  with 2 q show ?case using setitem_stable by fastforce
next
  case (3 obj k k' ks v)
  from "3.prems"(1) obtain child child' where
    c: "getitem obj k = Inr child" "set_path child (k' # ks) v = Inr child'"
       "setitem obj k child' = Inr obj"
    by (cases "getitem obj k"; cases "set_path (projr (getitem obj k)) (k' # ks) v") auto
  from c(3) have "getitem obj k = Inr child'" by (rule getitem_setitem_same)
  with c(1) have same: "child' = child" by simp
  from "3.prems"(3) obtain b q' where q: "q = b # q'" by (cases q) auto
  show ?case
  proof (cases "k = b")
    case True
    with "3.prems"(3) q have d: "diverge (k' # ks) q'" by simp
    then obtain b' q'' where q': "q' = b' # q''" by (cases q') auto
    from "3.prems"(2) q True q' c(1) obtain c2 where
      c2: "set_path child q' w = Inr c2" "setitem obj k c2 = Inr obj'"
      by (cases "set_path child (b' # q'') w") auto
    from c(2) same have "set_path child (k' # ks) v = Inr child" by simp
    from "3.IH"[OF this c2(1) d] have i: "set_path c2 (k' # ks) v = Inr c2" .
    from c2(2) have g: "getitem obj' k = Inr c2" by (rule getitem_setitem_same)
    from c2(2) have "setitem obj' k c2 = Inr obj'" by (rule setitem_idem)
    with g i show ?thesis by simp
  next
    case False
    from "3.prems"(2) q obtain x where x: "setitem obj b x = Inr obj'"
      using set_path_root by blast
    with False have g: "getitem obj' k = Inr child" using c(1) by (simp add: getitem_setitem_other)
    from c(3) same x False have "setitem obj' k child = Inr obj'"
      using setitem_stable by fastforce
    with g c(2) same show ?thesis by simp
  qed
qed


lemma diverge_sym: "diverge p q \<Longrightarrow> diverge q p"
  by (induction p q rule: diverge.induct) (auto split: if_splits)

lemma written_paths_Cons:
  "written_paths ((l, oc) # rs) =
     (if coords oc = JNull then written_paths rs else json_path oc # written_paths rs)"
  by (simp add: written_paths_def)

lemma written_paths_Nil: "written_paths [] = []"
  by (simp add: written_paths_def)

lemma update_json_skips:
  "update_json d rs = update_json d (filter (\<lambda>r. coords (snd r) \<noteq> JNull) rs)"
  by (induction d rs rule: update_json.induct) (auto intro: arg_cong[where f="andthen _"])

lemma update_json_frame:
  "update_json d rs = Inr d' \<Longrightarrow> list_all (\<lambda>p. diverge p q) (written_paths rs) \<Longrightarrow>
   get_path d' q = get_path d q"
proof (induction d rs arbitrary: d' rule: update_json.induct)
  case (1 d)
  then show ?case by simp
next
  case (2 d label result rest)
  show ?case
  proof (cases "coords result = JNull")
    case True
    with 2 show ?thesis by (simp add: written_paths_Cons)
  next
    case False
    with "2.prems"(1) obtain d1 where
      d1: "set_path d (json_path result) (coords result) = Inr d1" "update_json d1 rest = Inr d'"
      by (cases "set_path d (json_path result) (coords result)") auto
    from "2.prems"(2) False have dv: "diverge (json_path result) q"
      and r: "list_all (\<lambda>p. diverge p q) (written_paths rest)"
      by (simp_all add: written_paths_Cons)
    from "2.IH"(2)[OF False d1(2) r] have "get_path d' q = get_path d1 q" .
    also from d1(1) dv have "\<dots> = get_path d q" by (rule set_path_frame)
    finally show ?thesis .
  qed
qed

lemma update_json_stable:
  "set_path d p v = Inr d \<Longrightarrow> update_json d rs = Inr d' \<Longrightarrow>
   list_all (diverge p) (written_paths rs) \<Longrightarrow> set_path d' p v = Inr d'"
proof (induction d rs arbitrary: d' rule: update_json.induct)
  case (1 d)
  then show ?case by simp
next
  case (2 d label result rest)
  show ?case
  proof (cases "coords result = JNull")
    case True
    with 2 show ?thesis by (simp add: written_paths_Cons)
  next
    case False
    with "2.prems"(2) obtain d1 where
      d1: "set_path d (json_path result) (coords result) = Inr d1" "update_json d1 rest = Inr d'"
      by (cases "set_path d (json_path result) (coords result)") auto
    from "2.prems"(3) False have dv: "diverge p (json_path result)"
      and r: "list_all (diverge p) (written_paths rest)"
      by (simp_all add: written_paths_Cons)
    from "2.prems"(1) d1(1) dv have "set_path d1 p v = Inr d1" by (rule set_path_stable)
    from "2.IH"(2)[OF False this d1(2) r] show ?thesis .
  qed
qed

lemma update_json_settled:
  "update_json d rs = Inr d' \<Longrightarrow> separated (written_paths rs) \<Longrightarrow>
   (l, oc) \<in> set rs \<Longrightarrow> coords oc \<noteq> JNull \<Longrightarrow>
   set_path d' (json_path oc) (coords oc) = Inr d'"
proof (induction d rs arbitrary: d' rule: update_json.induct)
  case (1 d)
  then show ?case by simp
next
  case (2 d label result rest)
  show ?case
  proof (cases "coords result = JNull")
    case True
    with "2.prems" have "(l, oc) \<in> set rest" by auto
    with True 2 show ?thesis by (simp add: written_paths_Cons)
  next
    case False
    with "2.prems"(1) obtain d1 where
      d1: "set_path d (json_path result) (coords result) = Inr d1" "update_json d1 rest = Inr d'"
      by (cases "set_path d (json_path result) (coords result)") auto
    from "2.prems"(2) False have dv: "list_all (diverge (json_path result)) (written_paths rest)"
      and r: "separated (written_paths rest)"
      by (simp_all add: written_paths_Cons)
    show ?thesis
    proof (cases "(l, oc) \<in> set rest")
      case True
      from "2.IH"(2)[OF False d1(2) r True "2.prems"(4)] show ?thesis .
    next
      case f: False
      with "2.prems"(3) have e: "oc = result" by simp
      from d1(1) have "set_path d1 (json_path result) (coords result) = Inr d1"
        by (rule set_path_idem)
      from this d1(2) dv have "set_path d' (json_path result) (coords result) = Inr d'"
        by (rule update_json_stable)
      with e show ?thesis by simp
    qed
  qed
qed

lemma update_json_fixed:
  "(\<And>l oc. (l, oc) \<in> set rs \<Longrightarrow> coords oc \<noteq> JNull \<Longrightarrow>
      set_path d (json_path oc) (coords oc) = Inr d) \<Longrightarrow> update_json d rs = Inr d"
proof (induction rs)
  case Nil
  then show ?case by simp
next
  case (Cons r rs)
  obtain l oc where r: "r = (l, oc)" by (cases r)
  have rest: "update_json d rs = Inr d"
  proof (rule Cons.IH)
    fix l' oc'
    assume "(l', oc') \<in> set rs" "coords oc' \<noteq> JNull"
    then show "set_path d (json_path oc') (coords oc') = Inr d"
      using Cons.prems[of l' oc'] by simp
  qed
  show ?case
  proof (cases "coords oc = JNull")
    case True
    with r rest show ?thesis by simp
  next
    case False
    with r have "set_path d (json_path oc) (coords oc) = Inr d"
      using Cons.prems[of l oc] by simp
    with r rest False show ?thesis by simp
  qed
qed

lemma update_json_idem:
  "update_json d rs = Inr d' \<Longrightarrow> separated (written_paths rs) \<Longrightarrow> update_json d' rs = Inr d'"
  by (rule update_json_fixed) (rule update_json_settled)


section \<open>The geocoding loop\<close>

lemma dict_set_fresh: "k \<notin> fst ` set kvs \<Longrightarrow> dict_set kvs k v = kvs @ [(k, v)]"
  by (induction kvs) auto

lemma results_step:
  "results (geocode_step g r k (l, a, p) st) = dict_set (results st) l (outcome_of r (g k a) a p)"
  by (cases "g k a") (simp_all add: geocode_step_def)

lemma success_step:
  "success (geocode_step g r k (l, a, p) st) = success st + (if is_found (g k a) then 1 else 0)"
  by (cases "g k a") (simp_all add: geocode_step_def)

lemma failed_step:
  "failed (geocode_step g r k (l, a, p) st) = failed st + (if is_found (g k a) then 0 else 1)"
  by (cases "g k a") (simp_all add: geocode_step_def)

lemma sleeps_step:
  "sleeps (geocode_step g r k (l, a, p) st) = sleeps st + (if is_raised (g k a) then 0 else 1)"
  by (cases "g k a") (simp_all add: geocode_step_def)

lemma results_loop_fresh:
  "distinct (map fst es) \<Longrightarrow> fst ` set es \<inter> fst ` set (results st) = {} \<Longrightarrow>
   results (geocode_loop g r k es st) = results st @ expected_outcomes g r k es"
proof (induction es arbitrary: k st)
  case Nil
  then show ?case by simp
next
  case (Cons e es)
  obtain l a p where e: "e = (l, a, p)" by (cases e)
  let ?st = "geocode_step g r k (l, a, p) st"
  from Cons.prems e have fresh: "l \<notin> fst ` set (results st)" by auto
  then have rs: "results ?st = results st @ [(l, outcome_of r (g k a) a p)]"
    by (simp add: results_step dict_set_fresh)
  from Cons.prems e have "distinct (map fst es)" and "l \<notin> fst ` set es" by auto
  moreover with Cons.prems rs have "fst ` set es \<inter> fst ` set (results ?st) = {}" by auto
  ultimately have "results (geocode_loop g r (Suc k) es ?st) =
      results ?st @ expected_outcomes g r (Suc k) es"
    by (intro Cons.IH)
  with rs e show ?case by simp
qed

lemma results_geocode_all:
  "distinct (map fst es) \<Longrightarrow> results (geocode_all g r es) = expected_outcomes g r 0 es"
  by (simp add: geocode_all_def results_loop_fresh)

lemma success_loop:
  "success (geocode_loop g r k es st) = success st + length (filter is_found (responses g k es))"
  by (induction es arbitrary: k st) (auto simp: success_step)

lemma failed_loop:
  "failed (geocode_loop g r k es st) =
     failed st + length (filter is_not_found (responses g k es))
               + length (filter is_raised (responses g k es))"
proof (induction es arbitrary: k st)
  case Nil
  then show ?case by simp
next
  case (Cons e es)
  obtain l a p where e: "e = (l, a, p)" by (cases e)
  show ?case using Cons.IH e by (cases "g k a") (simp_all add: failed_step)
qed

lemma sleeps_loop:
  "sleeps (geocode_loop g r k es st) =
     sleeps st + length (filter (\<lambda>x. \<not> is_raised x) (responses g k es))"
  by (induction es arbitrary: k st) (auto simp: sleeps_step)

lemma length_responses: "length (responses g k es) = length es"
  by (induction es arbitrary: k) auto

lemma expected_outcomes_entries:
  "map (\<lambda>(l, oc). (l, address oc, json_path oc)) (expected_outcomes g r k es) = es"
proof (induction es arbitrary: k)
  case Nil
  then show ?case by simp
next
  case (Cons e es)
  obtain l a p where e: "e = (l, a, p)" by (cases e)
  show ?case using Cons.IH e by (cases "g k a") simp_all
qed


section \<open>Extraction computes the expected entries\<close>

lemma py_get_Inr: "py_get obj k dflt = Inr v \<Longrightarrow> v = lookup_or obj k dflt \<and> is_obj obj"
  by (cases obj) (auto split: option.splits)

lemma py_get_obj: "is_obj obj \<Longrightarrow> py_get obj k dflt = Inr (lookup_or obj k dflt)"
  by (cases obj) (auto split: option.splits)

lemma key_value_not_obj: "\<not> is_obj (key_value k)"
  by (cases k) simp_all

lemma py_iter_Inr: "py_iter v = Inr xs \<Longrightarrow> list_all is_obj xs \<Longrightarrow> xs = elements v"
  by (cases v; cases xs) (auto simp: key_value_not_obj)

lemma py_format_as_text: "py_format repr v = as_text repr v"
proof (cases v)
  case (JBool b)
  then show ?thesis by (cases b) simp_all
qed simp_all

lemma field_obj: "is_obj obj \<Longrightarrow> field repr obj k = Inr (field_text repr obj k)"
  by (cases obj) (auto simp: field_def py_format_as_text split: option.splits)

lemma field_Inr: "field repr obj k = Inr s \<Longrightarrow> s = field_text repr obj k \<and> is_obj obj"
proof -
  assume a: "field repr obj k = Inr s"
  then have o: "is_obj obj" by (cases obj) (auto simp: field_def)
  with a field_obj[OF o, of repr k] show ?thesis by simp
qed

lemma andthen_Inr: "andthen m f = Inr y \<Longrightarrow> \<exists>x. m = Inr x \<and> f x = Inr y"
  by (cases m) auto

lemma city_state_obj:
  "is_obj cover \<Longrightarrow> city_state repr cover =
     Inr (field_text repr cover ''address_city'' @ '', '' @ field_text repr cover ''address_state''
          @ '' '' @ field_text repr cover ''address_zip'')"
  by (simp add: city_state_def field_obj)

lemma subject_addr_obj: "is_obj cover \<Longrightarrow> subject_addr repr cover = Inr (subject_text repr cover)"
  by (simp add: subject_addr_def subject_text_def field_obj)

lemma subject_addr_Inr: "subject_addr repr cover = Inr s \<Longrightarrow> is_obj cover"
  unfolding subject_addr_def by (drule andthen_Inr) (auto dest: field_Inr)

lemma comp_loop_obj:
  "is_obj cover \<Longrightarrow> list_all is_obj items \<Longrightarrow>
   comp_loop repr cover lab pth i items = Inr (comp_entries repr cover lab pth i items)"
  by (induction items arbitrary: i)
     (simp_all add: comp_entries_def city_state_obj field_obj comp_addr_def)

lemma comp_loop_Inr:
  "is_obj cover \<Longrightarrow> comp_loop repr cover lab pth i items = Inr es \<Longrightarrow>
   es = comp_entries repr cover lab pth i items \<and> list_all is_obj items"
proof (induction items arbitrary: i es)
  case Nil
  then show ?case by (simp add: comp_entries_def)
next
  case (Cons c items)
  from Cons.prems obtain street more where
    s: "field repr c ''address'' = Inr street"
    and m: "comp_loop repr cover lab pth (Suc i) items = Inr more"
    and e: "es = (lab i, street @ '', '' @ field_text repr cover ''address_city'' @ '', ''
                 @ field_text repr cover ''address_state'' @ '' ''
                 @ field_text repr cover ''address_zip'', pth i) # more"
    by (auto simp: city_state_obj dest!: andthen_Inr)
  from Cons.IH[OF Cons.prems(1) m] field_Inr[OF s] e
  show ?case by (simp add: comp_entries_def comp_addr_def)
qed


lemma group_loop_obj:
  "is_obj cover \<Longrightarrow> list_all wf_group groups \<Longrightarrow>
   group_loop repr cover gi groups = Inr (rent_entries repr cover gi groups)"
proof (induction groups arbitrary: gi)
  case Nil
  then show ?case by (simp add: rent_entries_def)
next
  case (Cons grp groups)
  from Cons.prems have r: "list_all wf_group groups" and wg: "wf_group grp"
    by simp_all
  from wg have g: "is_obj grp" "obj_list (lookup_or grp ''comps'' (JArr []))"
    by (simp_all add: wf_group_def)
  from g(2) obtain xs where xs: "lookup_or grp ''comps'' (JArr []) = JArr xs" "list_all is_obj xs"
    by (cases "lookup_or grp ''comps'' (JArr [])") auto
  then have gc: "group_comps grp = xs" by (simp add: group_comps_def)
  from Cons.IH[OF Cons.prems(1) r]
  have "group_loop repr cover (Suc gi) groups = Inr (rent_entries repr cover (Suc gi) groups)" .
  with g(1) xs gc Cons.prems(1) show ?case
    by (simp add: py_get_obj comp_loop_obj rent_entries_def)
qed

lemma group_comps_Inr:
  assumes "is_obj cover" and "py_get grp ''comps'' (JArr []) = Inr cv" and "py_iter cv = Inr comps"
    and "comp_loop repr cover lab pth i comps = Inr here"
  shows "comps = group_comps grp"
proof -
  from comp_loop_Inr[OF assms(1,4)] have "list_all is_obj comps" by simp
  with assms(3) have "comps = elements cv" by (rule py_iter_Inr)
  with assms(2) show ?thesis by (auto simp: group_comps_def dest: py_get_Inr)
qed

lemma group_loop_Inr:
  "is_obj cover \<Longrightarrow> group_loop repr cover gi groups = Inr es \<Longrightarrow>
   es = rent_entries repr cover gi groups \<and> list_all is_obj groups"
proof (induction groups arbitrary: gi es)
  case Nil
  then show ?case by (simp add: rent_entries_def)
next
  case (Cons grp groups)
  from Cons.prems(2) obtain cv comps here more where
    a: "py_get grp ''comps'' (JArr []) = Inr cv" "py_iter cv = Inr comps"
       "comp_loop repr cover (rent_label gi) (rent_path gi) 0 comps = Inr here"
       "group_loop repr cover (Suc gi) groups = Inr more" "es = here @ more"
    by (auto dest!: andthen_Inr)
  from group_comps_Inr[OF Cons.prems(1) a(1,2,3)] have "comps = group_comps grp" .
  moreover from a(1) have "is_obj grp" by (auto dest: py_get_Inr)
  ultimately show ?case
    using comp_loop_Inr[OF Cons.prems(1) a(3)] Cons.IH[OF Cons.prems(1) a(4)] a(5)
    by (simp add: rent_entries_def)
qed

lemma section_items_Inr:
  "section_items d sec inner = Inr xs \<Longrightarrow> list_all is_obj xs \<Longrightarrow>
   xs = section_seq d sec inner"
proof -
  assume a: "section_items d sec inner = Inr xs" and o: "list_all is_obj xs"
  from a obtain secv v where
    b: "py_get d sec (JObj []) = Inr secv" "py_get secv inner (JArr []) = Inr v"
       "py_iter v = Inr xs"
    unfolding section_items_def by (auto dest!: andthen_Inr)
  from b(3) o have "xs = elements v" by (rule py_iter_Inr)
  with b(1,2) show ?thesis by (auto simp: section_seq_def dest: py_get_Inr)
qed

lemma section_items_obj:
  "is_obj d \<Longrightarrow> is_obj (lookup_or d sec (JObj [])) \<Longrightarrow>
   lookup_or (lookup_or d sec (JObj [])) inner (JArr []) = JArr xs \<Longrightarrow>
   section_items d sec inner = Inr xs"
  by (simp add: section_items_def py_get_obj)

lemma section_seq_arr:
  "lookup_or (lookup_or d sec (JObj [])) inner (JArr []) = JArr xs \<Longrightarrow> section_seq d sec inner = xs"
  by (simp add: section_seq_def)

lemma extract_addresses_Inr:
  "extract_addresses repr d = Inr es \<Longrightarrow> es = expected_entries repr d"
proof -
  assume "extract_addresses repr d = Inr es"
  then obtain cover subj sales se actives ae groups re where
    a: "py_get d ''cover'' (JObj []) = Inr cover" "subject_addr repr cover = Inr subj"
       "section_items d ''sale_comps'' ''comps'' = Inr sales"
       "comp_loop repr cover sale_label sale_path 0 sales = Inr se"
       "section_items d ''active_comps'' ''comps'' = Inr actives"
       "comp_loop repr cover active_label active_path 0 actives = Inr ae"
       "section_items d ''rent_comps'' ''groups'' = Inr groups"
       "group_loop repr cover 0 groups = Inr re"
       "es = (''subject'', subj, [Key ''coordinates'', Key ''subject'']) # se @ ae @ re"
    unfolding extract_addresses_def by (auto dest!: andthen_Inr)
  from a(1) have c: "cover = cover_of d" by (auto simp: cover_of_def dest: py_get_Inr)
  from a(2) have o: "is_obj cover" by (rule subject_addr_Inr)
  with a(2) have s: "subj = subject_text repr cover" by (simp add: subject_addr_obj)
  from comp_loop_Inr[OF o a(4)]
  have se: "se = comp_entries repr cover sale_label sale_path 0 sales" "list_all is_obj sales"
    by simp_all
  from comp_loop_Inr[OF o a(6)]
  have ae: "ae = comp_entries repr cover active_label active_path 0 actives"
    "list_all is_obj actives"
    by simp_all
  from group_loop_Inr[OF o a(8)]
  have re: "re = rent_entries repr cover 0 groups" "list_all is_obj groups"
    by simp_all
  from section_items_Inr[OF a(3) se(2)] section_items_Inr[OF a(5) ae(2)]
    section_items_Inr[OF a(7) re(2)] se(1) ae(1) re(1) a(9) c s
  show ?thesis by (simp add: expected_entries_def)
qed

lemma extract_addresses_wf:
  "wf_doc d \<Longrightarrow> extract_addresses repr d = Inr (expected_entries repr d)"
proof -
  assume w: "wf_doc d"
  then have d: "is_obj d" and c: "is_obj (cover_of d)" by (simp_all add: wf_doc_def cover_of_def)
  from w obtain sales where sales:
    "lookup_or (lookup_or d ''sale_comps'' (JObj [])) ''comps'' (JArr []) = JArr sales"
    "list_all is_obj sales"
    by (cases "lookup_or (lookup_or d ''sale_comps'' (JObj [])) ''comps'' (JArr [])")
       (auto simp: wf_doc_def)
  from w obtain actives where actives:
    "lookup_or (lookup_or d ''active_comps'' (JObj [])) ''comps'' (JArr []) = JArr actives"
    "list_all is_obj actives"
    by (cases "lookup_or (lookup_or d ''active_comps'' (JObj [])) ''comps'' (JArr [])")
       (auto simp: wf_doc_def)
  from w obtain groups where groups:
    "lookup_or (lookup_or d ''rent_comps'' (JObj [])) ''groups'' (JArr []) = JArr groups"
    "list_all wf_group groups"
    by (cases "lookup_or (lookup_or d ''rent_comps'' (JObj [])) ''groups'' (JArr [])")
       (auto simp: wf_doc_def)
  from w have s1: "section_items d ''sale_comps'' ''comps'' = Inr sales"
    by (intro section_items_obj sales) (simp_all add: wf_doc_def)
  from w have s2: "section_items d ''active_comps'' ''comps'' = Inr actives"
    by (intro section_items_obj actives) (simp_all add: wf_doc_def)
  from w have s3: "section_items d ''rent_comps'' ''groups'' = Inr groups"
    by (intro section_items_obj groups) (simp_all add: wf_doc_def)
  have g: "py_get d ''cover'' (JObj []) = Inr (cover_of d)"
    using d by (simp add: py_get_obj cover_of_def)
  show ?thesis
    unfolding extract_addresses_def expected_entries_def
    by (simp add: g subject_addr_obj[OF c] s1 s2 s3 comp_loop_obj[OF c] group_loop_obj[OF c]
        sales actives groups section_seq_arr)
qed

section \<open>Labels are pairwise different\<close>

lemma digit_inj: "a < 10 \<Longrightarrow> b < 10 \<Longrightarrow> digit a = digit b \<Longrightarrow> a = b"
  by (simp add: digit_def char_of_eq_iff take_bit_nat_eq_self)

lemma digit_not_underscore: "d < 10 \<Longrightarrow> CHR ''_'' \<noteq> digit d"
proof
  assume d: "d < 10" and e: "CHR ''_'' = digit d"
  have "of_char (digit d) = (48 + d :: nat)"
    using d by (simp add: digit_def take_bit_nat_eq_self)
  moreover have "of_char (CHR ''_'') = (95 :: nat)" by simp
  ultimately show False using d e by simp
qed

lemma dec_nonempty: "dec n \<noteq> []" "[] \<noteq> dec n"
  by (subst dec.simps, simp)+

lemma dec_last: "last (dec n) = digit (n mod 10)"
  by (subst dec.simps) simp

lemma dec_butlast: "butlast (dec n) = (if n < 10 then [] else dec (n div 10))"
  by (subst dec.simps) simp

lemma dec_inj: "dec m = dec n \<Longrightarrow> m = n"
proof (induction m arbitrary: n rule: dec.induct)
  case (1 m)
  have l: "digit (m mod 10) = digit (n mod 10)"
    using 1(2) dec_last by metis
  then have r: "m mod 10 = n mod 10"
    by (intro digit_inj) simp_all
  have b: "butlast (dec m) = butlast (dec n)" using 1(2) by simp
  show ?case
  proof (cases "m < 10")
    case True
    then have "n < 10" using b by (auto simp: dec_butlast dec_nonempty split: if_splits)
    with True r show ?thesis by simp
  next
    case False
    then have n: "\<not> n < 10"
      using b by (auto simp: dec_butlast dec_nonempty split: if_splits)
    with False b have "dec (m div 10) = dec (n div 10)" by (simp add: dec_butlast)
    with 1(1) False have "m div 10 = n div 10" by blast
    with r show ?thesis by (metis div_mult_mod_eq)
  qed
qed

lemma dec_no_underscore: "CHR ''_'' \<notin> set (dec n)"
proof (induction n rule: dec.induct)
  case (1 n)
  show ?case
  proof (cases "n < 10")
    case True
    then show ?thesis by (subst dec.simps) (simp add: digit_not_underscore)
  next
    case False
    with 1 have "CHR ''_'' \<notin> set (dec (n div 10))" by simp
    moreover have "CHR ''_'' \<noteq> digit (n mod 10)" by (rule digit_not_underscore) simp
    ultimately show ?thesis using False by (subst dec.simps) auto
  qed
qed

lemma sale_label_inj: "sale_label i = sale_label j \<Longrightarrow> i = j"
  by (simp add: sale_label_def dec_inj)

lemma active_label_inj: "active_label i = active_label j \<Longrightarrow> i = j"
  by (simp add: active_label_def dec_inj)

lemma rent_label_inj: "rent_label g c = rent_label g' c' \<Longrightarrow> g = g' \<and> c = c'"
proof -
  assume "rent_label g c = rent_label g' c'"
  then have "dec g @ CHR ''_'' # dec c = dec g' @ CHR ''_'' # dec c'"
    by (simp add: rent_label_def)
  then have "dec g = dec g' \<and> dec c = dec c'"
    using append_Cons_eq_iff[OF dec_no_underscore dec_no_underscore] by blast
  then show ?thesis by (simp add: dec_inj)
qed

lemma labels_apart:
  "sale_label i \<noteq> ''subject''" "active_label i \<noteq> ''subject''" "rent_label g c \<noteq> ''subject''"
  "sale_label i \<noteq> active_label j" "sale_label i \<noteq> rent_label g c"
  "active_label i \<noteq> rent_label g c"
  by (simp_all add: sale_label_def active_label_def rent_label_def)

lemma map_fst_comp_entries:
  "map fst (comp_entries repr cover lab pth i items) = map lab [i..<i + length items]"
  by (induction items arbitrary: i) (simp_all add: comp_entries_def upt_rec)

lemma map_path_comp_entries:
  "map (\<lambda>e. snd (snd e)) (comp_entries repr cover lab pth i items) = map pth [i..<i + length items]"
  by (induction items arbitrary: i) (simp_all add: comp_entries_def upt_rec)

lemma rent_entries_Nil: "rent_entries repr cover gi [] = []"
  by (simp add: rent_entries_def)

lemma rent_entries_Cons:
  "rent_entries repr cover gi (grp # groups) =
     comp_entries repr cover (rent_label gi) (rent_path gi) 0 (group_comps grp)
     @ rent_entries repr cover (Suc gi) groups"
  by (simp add: rent_entries_def)

lemma rent_labels_form:
  "l \<in> fst ` set (rent_entries repr cover gi groups) \<Longrightarrow> \<exists>g c. gi \<le> g \<and> l = rent_label g c"
proof (induction groups arbitrary: gi)
  case Nil
  then show ?case by (simp add: rent_entries_Nil)
next
  case (Cons grp groups)
  from Cons.prems consider
    "l \<in> set (map fst (comp_entries repr cover (rent_label gi) (rent_path gi) 0 (group_comps grp)))"
    | "l \<in> fst ` set (rent_entries repr cover (Suc gi) groups)"
    by (auto simp: rent_entries_Cons)
  then show ?case
  proof cases
    case 1
    then show ?thesis unfolding map_fst_comp_entries by auto
  next
    case 2
    from Cons.IH[OF 2] obtain g c where g: "Suc gi \<le> g" "l = rent_label g c" by blast
    then have "gi \<le> g" by simp
    with g(2) show ?thesis by blast
  qed
qed

lemma distinct_rent_labels: "distinct (map fst (rent_entries repr cover gi groups))"
proof (induction groups arbitrary: gi)
  case Nil
  then show ?case by (simp add: rent_entries_Nil)
next
  case (Cons grp groups)
  have a: "distinct (map (rent_label gi) [0..<0 + length (group_comps grp)])"
    by (auto simp: distinct_map intro!: inj_onI dest: rent_label_inj)
  have b: "set (map (rent_label gi) [0..<0 + length (group_comps grp)])
             \<inter> fst ` set (rent_entries repr cover (Suc gi) groups) = {}"
  proof (rule ccontr)
    assume "\<not> ?thesis"
    then obtain l where l: "l \<in> set (map (rent_label gi) [0..<0 + length (group_comps grp)])"
      "l \<in> fst ` set (rent_entries repr cover (Suc gi) groups)" by blast
    from l(1) obtain c where "l = rent_label gi c" by auto
    moreover from rent_labels_form[OF l(2)] obtain g c' where "Suc gi \<le> g" "l = rent_label g c'"
      by blast
    ultimately show False using rent_label_inj by fastforce
  qed
  from a b Cons.IH[of "Suc gi"] show ?case
    by (simp add: rent_entries_Cons map_fst_comp_entries)
qed

lemma distinct_expected_labels: "distinct (map fst (expected_entries repr d))"
proof -
  let ?s = "section_seq d ''sale_comps'' ''comps''"
  let ?a = "section_seq d ''active_comps'' ''comps''"
  let ?g = "section_seq d ''rent_comps'' ''groups''"
  have 1: "distinct (map sale_label [0..<0 + length ?s])"
    by (auto simp: distinct_map intro!: inj_onI dest: sale_label_inj)
  have 2: "distinct (map active_label [0..<0 + length ?a])"
    by (auto simp: distinct_map intro!: inj_onI dest: active_label_inj)
  have 3: "distinct (map fst (rent_entries repr (cover_of d) 0 ?g))"
    by (rule distinct_rent_labels)
  have r: "\<And>l. l \<in> fst ` set (rent_entries repr (cover_of d) 0 ?g) \<Longrightarrow> \<exists>g c. l = rent_label g c"
    using rent_labels_form by blast
  have 4: "(''subject'', x) \<notin> set (rent_entries repr (cover_of d) 0 ?g)" for x
    using r[of "''subject''"] labels_apart(3) by force
  have 5: "(sale_label i, x) \<notin> set (rent_entries repr (cover_of d) 0 ?g)" for i x
    using r[of "sale_label i"] labels_apart(5) by force
  have 6: "(active_label i, x) \<notin> set (rent_entries repr (cover_of d) 0 ?g)" for i x
    using r[of "active_label i"] labels_apart(6) by force
  show ?thesis
    unfolding expected_entries_def
    using 1 2 3 4 5 6
    by (auto simp: map_fst_comp_entries labels_apart labels_apart[symmetric])
qed

section \<open>Extracted paths diverge pairwise\<close>

lemma separated_append:
  "separated (xs @ ys) =
     (separated xs \<and> separated ys \<and> (\<forall>p \<in> set xs. \<forall>q \<in> set ys. diverge p q))"
  by (induction xs) (auto simp: list_all_iff)

lemma separated_map:
  "distinct xs \<Longrightarrow> (\<And>a b. a \<noteq> b \<Longrightarrow> diverge (f a) (f b)) \<Longrightarrow> separated (map f xs)"
proof (induction xs)
  case Nil
  then show ?case by simp
next
  case (Cons x xs)
  have "diverge (f x) (f y)" if "y \<in> set xs" for y
  proof -
    from that Cons.prems(1) have "x \<noteq> y" by auto
    then show ?thesis by (rule Cons.prems(2))
  qed
  moreover have "separated (map f xs)"
    using Cons.prems by (intro Cons.IH) simp_all
  ultimately show ?case by (simp add: list_all_iff)
qed

lemma separated_map_filter: "separated (map f xs) \<Longrightarrow> separated (map f (filter P xs))"
  by (induction xs) (auto simp: list_all_iff)

lemma rent_paths_form:
  "p \<in> (\<lambda>e. snd (snd e)) ` set (rent_entries repr cover gi groups) \<Longrightarrow>
   \<exists>g c. gi \<le> g \<and> p = rent_path g c"
proof (induction groups arbitrary: gi)
  case Nil
  then show ?case by (simp add: rent_entries_Nil)
next
  case (Cons grp groups)
  from Cons.prems consider
    "p \<in> set (map (\<lambda>e. snd (snd e))
        (comp_entries repr cover (rent_label gi) (rent_path gi) 0 (group_comps grp)))"
    | "p \<in> (\<lambda>e. snd (snd e)) ` set (rent_entries repr cover (Suc gi) groups)"
    by (auto simp: rent_entries_Cons)
  then show ?case
  proof cases
    case 1
    then show ?thesis unfolding map_path_comp_entries by auto
  next
    case 2
    from Cons.IH[OF 2] obtain g c where g: "Suc gi \<le> g" "p = rent_path g c" by blast
    then have "gi \<le> g" by simp
    with g(2) show ?thesis by blast
  qed
qed

lemma separated_rent_paths:
  "separated (map (\<lambda>e. snd (snd e)) (rent_entries repr cover gi groups))"
proof (induction groups arbitrary: gi)
  case Nil
  then show ?case by (simp add: rent_entries_Nil)
next
  case (Cons grp groups)
  have a: "separated (map (rent_path gi) [0..<0 + length (group_comps grp)])"
    by (rule separated_map) (simp_all add: rent_path_def)
  have b: "diverge (rent_path gi c) q"
    if "q \<in> (\<lambda>e. snd (snd e)) ` set (rent_entries repr cover (Suc gi) groups)" for c q
  proof -
    from rent_paths_form[OF that] obtain g c' where "Suc gi \<le> g" "q = rent_path g c'" by blast
    then show ?thesis by (simp add: rent_path_def)
  qed
  from a b Cons.IH[of "Suc gi"] show ?case
    by (auto simp: rent_entries_Cons map_path_comp_entries separated_append)
qed

lemma separated_expected_paths:
  "separated (map (\<lambda>e. snd (snd e)) (expected_entries repr d))"
proof -
  let ?s = "section_seq d ''sale_comps'' ''comps''"
  let ?a = "section_seq d ''active_comps'' ''comps''"
  let ?g = "section_seq d ''rent_comps'' ''groups''"
  let ?R = "(\<lambda>e. snd (snd e)) ` set (rent_entries repr (cover_of d) 0 ?g)"
  have 1: "separated (map sale_path [0..<0 + length ?s])"
    by (rule separated_map) (simp_all add: sale_path_def)
  have 2: "separated (map active_path [0..<0 + length ?a])"
    by (rule separated_map) (simp_all add: active_path_def)
  have 3: "separated (map (\<lambda>e. snd (snd e)) (rent_entries repr (cover_of d) 0 ?g))"
    by (rule separated_rent_paths)
  have r: "\<exists>g c. q = rent_path g c" if "q \<in> ?R" for q
    using rent_paths_form[OF that] by blast
  have 4: "diverge [Key ''coordinates'', Key ''subject''] q" if "q \<in> ?R" for q
    using r[OF that] by (auto simp: rent_path_def)
  have 5: "diverge (sale_path i) q" if "q \<in> ?R" for q i
    using r[OF that] by (auto simp: rent_path_def sale_path_def)
  have 6: "diverge (active_path i) q" if "q \<in> ?R" for q i
    using r[OF that] by (auto simp: rent_path_def active_path_def)
  have 7: "diverge [Key ''coordinates'', Key ''subject''] (sale_path i)"
    "diverge [Key ''coordinates'', Key ''subject''] (active_path i)"
    "diverge (sale_path i) (active_path j)" for i j
    by (simp_all add: sale_path_def active_path_def)
  let ?S = "map sale_path [0..<0 + length ?s]"
  let ?A = "map active_path [0..<0 + length ?a]"
  let ?Rl = "map (\<lambda>e. snd (snd e)) (rent_entries repr (cover_of d) 0 ?g)"
  have R: "set ?Rl = ?R" by simp
  have ar: "separated (?A @ ?Rl)"
    unfolding separated_append using 2 3 6 R by auto
  have sar: "separated (?S @ ?A @ ?Rl)"
    unfolding separated_append[of ?S] using 1 ar 5 7(3) R by auto
  have subj: "list_all (diverge [Key ''coordinates'', Key ''subject'']) (?S @ ?A @ ?Rl)"
    unfolding list_all_iff using 4 7(1,2) R by auto
  have "map (\<lambda>e. snd (snd e)) (expected_entries repr d)
          = [Key ''coordinates'', Key ''subject''] # ?S @ ?A @ ?Rl"
    by (simp add: expected_entries_def map_path_comp_entries)
  with subj sar show ?thesis by simp
qed

lemma json_paths_expected_outcomes:
  "map json_path (map snd (expected_outcomes g r k es)) = map (\<lambda>e. snd (snd e)) es"
proof (induction es arbitrary: k)
  case Nil
  then show ?case by simp
next
  case (Cons e es)
  obtain l a p where e: "e = (l, a, p)" by (cases e)
  show ?case using Cons.IH e by (cases "g k a") simp_all
qed

lemma separated_pipeline:
  "extract_addresses repr d = Inr es \<Longrightarrow> separated (written_paths (results (geocode_all g r es)))"
proof -
  assume "extract_addresses repr d = Inr es"
  then have es: "es = expected_entries repr d" by (rule extract_addresses_Inr)
  then have "distinct (map fst es)" by (simp add: distinct_expected_labels)
  then have rs: "results (geocode_all g r es) = expected_outcomes g r 0 es"
    by (rule results_geocode_all)
  have "separated (map json_path (map snd (expected_outcomes g r 0 es)))"
    unfolding json_paths_expected_outcomes es by (rule separated_expected_paths)
  then show ?thesis unfolding rs written_paths_def by (rule separated_map_filter)
qed

section \<open>The sample run, evaluated\<close>

lemma dec_digit: "n < 10 \<Longrightarrow> dec n = [digit n]"
  by (subst dec.simps) simp

lemma digit_0: "digit 0 = CHR ''0''"
  by code_simp

lemma digit_values: "digit 1 = CHR ''1''" "digit (Suc 0) = CHR ''1''" "digit 5 = CHR ''5''"
  by code_simp+

lemma dec_values:
  "dec 0 = ''0''" "dec (Suc 0) = ''1''" "dec 5 = ''5''" "dec 10001 = ''10001''"
  by (simp_all add: dec.simps digit_0 digit_values)

lemma extract_sample: "extract_addresses no_repr sample_doc = Inr sample_entries"
  by (simp add: extract_addresses_def sample_doc_def sample_entries_def subject_addr_def
      city_state_def field_def section_items_def sale_label_def sale_path_def rent_label_def
      rent_path_def dec_digit digit_0)

lemma results_sample:
  "results (geocode_all sample_geocoder no_round sample_entries) =
     [(''subject'', \<lparr>address = ''1 Main St, Metropolis, NY 10001'',
                     coords = JArr [JFloat 40712800, JFloat (- 74006000)],
                     json_path = [Key ''coordinates'', Key ''subject''], error = None\<rparr>),
      (''sale_comp_0'', \<lparr>address = ''5 Elm St, Metropolis, NY 10001'', coords = JNull,
                     json_path = [Key ''sale_comps'', Key ''comps'', Idx 0, Key ''coords''],
                     error = None\<rparr>),
      (''rent_comp_0_0'', \<lparr>address = ''9 Oak Ave, Metropolis, NY 10001'', coords = JNull,
                     json_path = [Key ''rent_comps'', Key ''groups'', Idx 0, Key ''comps'', Idx 0,
                                  Key ''coords''],
                     error = Some ''timed out''\<rparr>)]"
  by (simp add: geocode_all_def sample_entries_def geocode_step_def no_round_def)

lemma sleeps_geocode_all:
  "sleeps (geocode_all g rnd es) = length (filter (\<lambda>x. \<not> is_raised x) (responses g 0 es))"
  by (simp add: geocode_all_def sleeps_loop)

section \<open>The loop with its exceptions\<close>


lemma on_exception_accepted:
  "pr (Progress (LineErr l m a)) = None \<Longrightarrow>
   \<exists>st'. on_exception pr l a p m st = Inr st'
     \<and> results st' = dict_set (results st) l \<lparr>address = a, coords = JNull, json_path = p, error = Some m\<rparr>"
  by (simp add: on_exception_def)








text \<open>
  The \<^verbatim>\<open>print\<close> of the handler is not guarded. On the document with the lone surrogate the
  progress line of the subject cannot be written; the exception is caught, the handler
  prints the same address, and that exception leaves \<^verbatim>\<open>geocode_all\<close>.
\<close>

lemma handler_print_leaves_geocode_all:
  "extract_addresses no_repr surrogate_doc = Inr surrogate_entries
   \<and> geocode_all_io (caught never_found) strict_console no_round surrogate_entries
       = Inl (Uncaught ''surrogates not allowed'')"
  by (simp add: extract_addresses_def surrogate_doc_def surrogate_entries_def subject_addr_def
      field_def section_items_def geocode_all_io_def geocode_step_io_def caught_def
      never_found_def on_exception_def)

section \<open>Claims about \<^verbatim>\<open>geocode_all\<close>\<close>

text \<open>
  Claim C1, as the code has it. The summary line of \<^verbatim>\<open>geocode_all\<close> holds the total
  and two counters: \<^verbatim>\<open>Success\<close> counts the entries with a location, \<^verbatim>\<open>Failed\<close> counts
  the entries that were not found together with the entries whose call raised.
\<close>

theorem summary_counts:
  "summary es (geocode_all g rnd es) =
     (length es,
      length (filter is_found (responses g 0 es)),
      length (filter is_not_found (responses g 0 es))
        + length (filter is_raised (responses g 0 es)))"
  by (simp add: summary_def geocode_all_def success_loop failed_loop)

text \<open>
  Claim C1 as stated fails: one entry that is not found and one entry whose call raises
  give the same summary, total 1, success 0, failed 1. The summary has no separate
  not-found count.
\<close>

theorem summary_same_for_not_found_and_error:
  "summary [(''subject'', '', ,  '', [Key ''coordinates'', Key ''subject''])]
     (geocode_all never_found no_round [(''subject'', '', ,  '', [Key ''coordinates'', Key ''subject''])])
     = (1, 0, 1)
   \<and> summary [(''subject'', '', ,  '', [Key ''coordinates'', Key ''subject''])]
     (geocode_all always_raises no_round [(''subject'', '', ,  '', [Key ''coordinates'', Key ''subject''])])
     = (1, 0, 1)"
  by (simp add: summary_def geocode_all_def geocode_step_def never_found_def always_raises_def)




text \<open>
  Claim C7 at the failing input. After a call that raises, \<^verbatim>\<open>time.sleep\<close> is not
  reached: a run of one entry whose call raises makes no call of \<^verbatim>\<open>time.sleep\<close>, while
  a run of one entry that is not found makes one.
\<close>

theorem sleeps_skipped_after_exception:
  "sleeps (geocode_all always_raises no_round
             [(''subject'', '', ,  '', [Key ''coordinates'', Key ''subject''])]) = 0
   \<and> sleeps (geocode_all never_found no_round
             [(''subject'', '', ,  '', [Key ''coordinates'', Key ''subject''])]) = 1"
  by (simp add: geocode_all_def geocode_step_def never_found_def always_raises_def)

lemma merged_sample:
  "update_json sample_doc (results (geocode_all sample_geocoder no_round sample_entries))
     = Inr sample_merged"
  unfolding results_sample by (simp add: sample_doc_def sample_merged_def)

lemma written_sample:
  "written_paths (results (geocode_all sample_geocoder no_round sample_entries))
     = [[Key ''coordinates'', Key ''subject'']]"
  unfolding results_sample by (simp add: written_paths_def)



section \<open>Claims about \<^verbatim>\<open>update_json\<close>\<close>

text \<open>
  Claim C4, as the code has it. \<^verbatim>\<open>update_json\<close> is idempotent on the result lists whose
  written paths diverge pairwise: when the first merge returns a document, merging the
  same results into that document returns it unchanged. The results that \<^verbatim>\<open>geocode_all\<close>
  builds from the entries extracted from a document are always of this kind.
\<close>

theorem update_json_idempotent:
  "(update_json d rs = Inr d' \<longrightarrow> separated (written_paths rs) \<longrightarrow> update_json d' rs = Inr d')
   \<and> (extract_addresses repr d0 = Inr es \<longrightarrow>
        separated (written_paths (results (geocode_all g rnd es))))"
  using update_json_idem separated_pipeline by blast

theorem update_json_idempotent_witness:
  "extract_addresses no_repr sample_doc = Inr sample_entries
   \<and> update_json sample_doc (results (geocode_all sample_geocoder no_round sample_entries))
     = Inr sample_merged
   \<and> separated (written_paths (results (geocode_all sample_geocoder no_round sample_entries)))
   \<and> update_json sample_merged (results (geocode_all sample_geocoder no_round sample_entries))
     = Inr sample_merged"
proof -
  note t = update_json_idempotent[where d = sample_doc and d' = sample_merged
      and rs = "results (geocode_all sample_geocoder no_round sample_entries)"
      and repr = no_repr and ?d0.0 = sample_doc and es = sample_entries
      and g = sample_geocoder and rnd = no_round]
  from t[THEN conjunct2, rule_format, OF extract_sample]
  have s: "separated (written_paths (results (geocode_all sample_geocoder no_round sample_entries)))" .
  from t[THEN conjunct1, rule_format, OF merged_sample s]
  show ?thesis using extract_sample merged_sample s by (intro conjI)
qed

text \<open>
  Claim C4 as stated fails for a result list in which one path is the parent of another:
  the first merge returns a document whose \<^verbatim>\<open>coordinates\<close> is a list, and the second
  merge fails on it with a TypeError.
\<close>

theorem update_json_not_idempotent:
  "update_json (JObj [(Key ''coordinates'', JObj [])]) nested_results
     = Inr (JObj [(Key ''coordinates'', JArr [JFloat 3, JFloat 4])])
   \<and> update_json (JObj [(Key ''coordinates'', JArr [JFloat 3, JFloat 4])]) nested_results
     = Inl TypeError"
  by (simp add: nested_results_def)

text \<open>
  Claim C5. \<^verbatim>\<open>update_json\<close> skips the results without coordinates: it does what it does
  on the results that carry coordinates alone. When it returns a document, every location
  whose path diverges from the path of every result with coordinates reads the same
  before and after the merge (the same value, or the same lookup error when the location
  does not exist).
\<close>

theorem update_json_touches_only_written_paths:
  "update_json d rs = update_json d (filter (\<lambda>r. coords (snd r) \<noteq> JNull) rs)
   \<and> (update_json d rs = Inr d' \<longrightarrow> list_all (\<lambda>p. diverge p q) (written_paths rs) \<longrightarrow>
        get_path d' q = get_path d q)"
  using update_json_skips update_json_frame by blast

theorem update_json_touches_only_written_paths_witness:
  "update_json sample_doc (results (geocode_all sample_geocoder no_round sample_entries))
     = Inr sample_merged
   \<and> list_all (\<lambda>p. diverge p [Key ''sale_comps'', Key ''comps'', Idx 0, Key ''coords''])
        (written_paths (results (geocode_all sample_geocoder no_round sample_entries)))
   \<and> get_path sample_merged [Key ''sale_comps'', Key ''comps'', Idx 0, Key ''coords'']
     = get_path sample_doc [Key ''sale_comps'', Key ''comps'', Idx 0, Key ''coords'']
   \<and> get_path sample_doc [Key ''sale_comps'', Key ''comps'', Idx 0, Key ''coords'']
     = Inl KeyError"
proof -
  have l: "list_all (\<lambda>p. diverge p [Key ''sale_comps'', Key ''comps'', Idx 0, Key ''coords''])
        (written_paths (results (geocode_all sample_geocoder no_round sample_entries)))"
    unfolding written_sample by simp
  have k: "get_path sample_doc [Key ''sale_comps'', Key ''comps'', Idx 0, Key ''coords'']
     = Inl KeyError"
    by (simp add: sample_doc_def)
  from update_json_touches_only_written_paths[THEN conjunct2, rule_format, OF merged_sample l]
  show ?thesis using merged_sample l k by (intro conjI)
qed



section \<open>Claims about \<^verbatim>\<open>extract_addresses\<close>\<close>

lemma length_comp_entries: "length (comp_entries repr cover lab pth i items) = length items"
  by (simp add: comp_entries_def)

lemma length_rent_entries:
  "length (rent_entries repr cover gi groups)
     = sum_list (map (\<lambda>grp. length (group_comps grp)) groups)"
  by (induction groups arbitrary: gi)
     (simp_all add: rent_entries_Nil rent_entries_Cons length_comp_entries)

lemma map_fst_rent_entries:
  "map fst (rent_entries repr cover gi groups)
     = concat (map (\<lambda>(g, grp). map (rent_label g) [0..<length (group_comps grp)])
                   (enumerate gi groups))"
  by (induction groups arbitrary: gi)
     (simp_all add: rent_entries_Nil rent_entries_Cons map_fst_comp_entries)

lemma comp_entries_member:
  "i < length items \<Longrightarrow>
   (lab (k + i), comp_addr repr cover (items ! i), pth (k + i))
     \<in> set (comp_entries repr cover lab pth k items)"
proof (induction items arbitrary: k i)
  case Nil
  then show ?case by simp
next
  case (Cons c items)
  show ?case
  proof (cases i)
    case 0
    then show ?thesis by (simp add: comp_entries_def)
  next
    case (Suc j)
    with Cons.prems have "j < length items" by simp
    from Cons.IH[OF this, of "Suc k"] Suc show ?thesis by (simp add: comp_entries_def)
  qed
qed

lemma rent_entries_member:
  "g < length groups \<Longrightarrow> c < length (group_comps (groups ! g)) \<Longrightarrow>
   (rent_label (gi + g) c, comp_addr repr cover (group_comps (groups ! g) ! c), rent_path (gi + g) c)
     \<in> set (rent_entries repr cover gi groups)"
proof (induction groups arbitrary: gi g)
  case Nil
  then show ?case by simp
next
  case (Cons grp groups)
  show ?case
  proof (cases g)
    case 0
    with Cons.prems(2) have "c < length (group_comps grp)" by simp
    from comp_entries_member[OF this, of "rent_label gi" 0 repr cover "rent_path gi"] 0
    show ?thesis by (simp add: rent_entries_Cons)
  next
    case (Suc j)
    with Cons.prems have "j < length groups" "c < length (group_comps (groups ! j))" by simp_all
    from Cons.IH[OF this, of "Suc gi"] Suc show ?thesis by (simp add: rent_entries_Cons)
  qed
qed

lemma map_fst_expected:
  "map fst (expected_entries repr d) =
             ''subject''
             # map sale_label [0..<length (section_seq d ''sale_comps'' ''comps'')]
             @ map active_label [0..<length (section_seq d ''active_comps'' ''comps'')]
             @ concat (map (\<lambda>(g, grp). map (rent_label g) [0..<length (group_comps grp)])
                           (enumerate 0 (section_seq d ''rent_comps'' ''groups'')))"
  by (simp add: expected_entries_def map_fst_comp_entries map_fst_rent_entries)

lemma length_expected:
  "length (expected_entries repr d) =
             1 + length (section_seq d ''sale_comps'' ''comps'')
               + length (section_seq d ''active_comps'' ''comps'')
               + sum_list (map (\<lambda>grp. length (group_comps grp))
                               (section_seq d ''rent_comps'' ''groups''))"
  by (simp add: expected_entries_def length_comp_entries length_rent_entries)

lemma section_seq_missing:
  "getitem d (Key sec) = Inl KeyError \<Longrightarrow> section_seq d sec inner = []"
  by (cases d) (auto simp: section_seq_def split: option.splits step.splits if_splits)

lemma section_items_missing:
  "getitem d (Key sec) = Inl KeyError \<Longrightarrow> section_items d sec inner = Inr []"
  by (cases d) (auto simp: section_items_def split: option.splits step.splits if_splits)

lemma field_missing:
  "getitem obj (Key k) = Inl KeyError \<Longrightarrow> field repr obj k = Inr []"
  by (cases obj) (auto simp: field_def split: option.splits step.splits if_splits)

lemma labels_written_out:
  "sale_label = (\<lambda>i. ''sale_comp_'' @ dec i)"
  "active_label = (\<lambda>i. ''active_comp_'' @ dec i)"
  "rent_label = (\<lambda>g c. ''rent_comp_'' @ dec g @ ''_'' @ dec c)"
  by (rule ext, simp add: sale_label_def, rule ext, simp add: active_label_def,
      (rule ext)+, simp add: rent_label_def)

lemma wf_listing: "wf_doc listing_doc"
  by (simp add: wf_doc_def listing_doc_def wf_group_def)

lemma listing_sections:
  "section_seq listing_doc ''sale_comps'' ''comps''
     = [JObj [(Key ''address'', JStr ''5 Elm St'')],
        JObj [(Key ''address'', JInt (- 5)), (Key ''address_city'', JStr ''Gotham''),
              (Key ''address_zip'', JStr ''99999'')]]"
  "section_seq listing_doc ''active_comps'' ''comps'' = []"
  "section_seq listing_doc ''rent_comps'' ''groups''
     = [JObj [(Key ''comps'', JArr [JObj [(Key ''address'', JStr ''9 Oak Ave'')],
                                    JObj [(Key ''address_city'', JStr ''Gotham'')]])],
        JObj [(Key ''comps'', JArr [JObj [(Key ''address'', JStr ''7 Pine Rd'')]])]]"
  "cover_of listing_doc = JObj [(Key ''address_street'', JStr ''1 Main St''),
                                  (Key ''address_city'', JStr ''Metropolis''),
                                  (Key ''address_state'', JStr ''NY''),
                                  (Key ''address_zip'', JInt 10001)]"
  by (simp_all add: section_seq_def listing_doc_def cover_of_def)

text \<open>
  Claim C6. For a well-formed document extraction succeeds, the labels of the entries are
  pairwise different and are \<^verbatim>\<open>subject\<close>, then \<^verbatim>\<open>sale_comp_i\<close> for every element of the
  list \<^verbatim>\<open>sale_comps.comps\<close>, \<^verbatim>\<open>active_comp_i\<close> for every element of \<^verbatim>\<open>active_comps.comps\<close>
  and \<^verbatim>\<open>rent_comp_g_c\<close> for every element of the list \<^verbatim>\<open>comps\<close> of every element of
  \<^verbatim>\<open>rent_comps.groups\<close>; the number of entries is one plus the lengths of these lists. A
  section whose key is missing from the document is iterated as the empty list and
  counts as such.
\<close>

theorem extract_labels_unique_and_counted:
  "(wf_doc d \<longrightarrow>
      (\<exists>es. extract_addresses repr d = Inr es
         \<and> distinct (map fst es)
         \<and> map fst es =
             ''subject''
             # map (\<lambda>i. ''sale_comp_'' @ dec i)
                   [0..<length (section_seq d ''sale_comps'' ''comps'')]
             @ map (\<lambda>i. ''active_comp_'' @ dec i)
                   [0..<length (section_seq d ''active_comps'' ''comps'')]
             @ concat (map (\<lambda>(g, grp). map (\<lambda>c. ''rent_comp_'' @ dec g @ ''_'' @ dec c)
                                             [0..<length (group_comps grp)])
                           (enumerate 0 (section_seq d ''rent_comps'' ''groups'')))
         \<and> length es =
             1 + length (section_seq d ''sale_comps'' ''comps'')
               + length (section_seq d ''active_comps'' ''comps'')
               + sum_list (map (\<lambda>grp. length (group_comps grp))
                               (section_seq d ''rent_comps'' ''groups''))))
   \<and> (getitem d (Key sec) = Inl KeyError \<longrightarrow>
        section_items d sec inner = Inr [] \<and> section_seq d sec inner = [])"
proof (intro conjI impI)
  assume "wf_doc d"
  then have e: "extract_addresses repr d = Inr (expected_entries repr d)"
    by (rule extract_addresses_wf)
  show "\<exists>es. extract_addresses repr d = Inr es
         \<and> distinct (map fst es)
         \<and> map fst es =
             ''subject''
             # map (\<lambda>i. ''sale_comp_'' @ dec i)
                   [0..<length (section_seq d ''sale_comps'' ''comps'')]
             @ map (\<lambda>i. ''active_comp_'' @ dec i)
                   [0..<length (section_seq d ''active_comps'' ''comps'')]
             @ concat (map (\<lambda>(g, grp). map (\<lambda>c. ''rent_comp_'' @ dec g @ ''_'' @ dec c)
                                             [0..<length (group_comps grp)])
                           (enumerate 0 (section_seq d ''rent_comps'' ''groups'')))
         \<and> length es =
             1 + length (section_seq d ''sale_comps'' ''comps'')
               + length (section_seq d ''active_comps'' ''comps'')
               + sum_list (map (\<lambda>grp. length (group_comps grp))
                               (section_seq d ''rent_comps'' ''groups''))"
  proof (rule exI[of _ "expected_entries repr d"], intro conjI)
    show "extract_addresses repr d = Inr (expected_entries repr d)" by (rule e)
    show "distinct (map fst (expected_entries repr d))" by (rule distinct_expected_labels)
    show "map fst (expected_entries repr d) =
             ''subject''
             # map (\<lambda>i. ''sale_comp_'' @ dec i)
                   [0..<length (section_seq d ''sale_comps'' ''comps'')]
             @ map (\<lambda>i. ''active_comp_'' @ dec i)
                   [0..<length (section_seq d ''active_comps'' ''comps'')]
             @ concat (map (\<lambda>(g, grp). map (\<lambda>c. ''rent_comp_'' @ dec g @ ''_'' @ dec c)
                                             [0..<length (group_comps grp)])
                           (enumerate 0 (section_seq d ''rent_comps'' ''groups'')))"
      by (rule map_fst_expected[unfolded labels_written_out])
  qed (rule length_expected)
next
  assume "getitem d (Key sec) = Inl KeyError"
  then show "section_items d sec inner = Inr []" by (rule section_items_missing)
next
  assume "getitem d (Key sec) = Inl KeyError"
  then show "section_seq d sec inner = []" by (rule section_seq_missing)
qed

theorem extract_labels_unique_and_counted_witness:
  "wf_doc listing_doc
   \<and> getitem listing_doc (Key ''active_comps'') = Inl KeyError
   \<and> section_items listing_doc ''active_comps'' ''comps'' = Inr []
   \<and> (\<exists>es. extract_addresses no_repr listing_doc = Inr es
         \<and> distinct (map fst es)
         \<and> map fst es = [''subject'', ''sale_comp_0'', ''sale_comp_1'',
                          ''rent_comp_0_0'', ''rent_comp_0_1'', ''rent_comp_1_0'']
         \<and> length es = 6)"
proof -
  have k: "getitem listing_doc (Key ''active_comps'') = Inl KeyError"
    by (simp add: listing_doc_def)
  note t = extract_labels_unique_and_counted[of listing_doc no_repr "''active_comps''" "''comps''"]
  from t[THEN conjunct2, rule_format, OF k]
  have m: "section_items listing_doc ''active_comps'' ''comps'' = Inr []" by (rule conjunct1)
  from t[THEN conjunct1, rule_format, OF wf_listing] obtain es where
    es: "extract_addresses no_repr listing_doc = Inr es" "distinct (map fst es)"
      and labels: "map fst es =
             ''subject''
             # map (\<lambda>i. ''sale_comp_'' @ dec i)
                   [0..<length (section_seq listing_doc ''sale_comps'' ''comps'')]
             @ map (\<lambda>i. ''active_comp_'' @ dec i)
                   [0..<length (section_seq listing_doc ''active_comps'' ''comps'')]
             @ concat (map (\<lambda>(g, grp). map (\<lambda>c. ''rent_comp_'' @ dec g @ ''_'' @ dec c)
                                             [0..<length (group_comps grp)])
                           (enumerate 0 (section_seq listing_doc ''rent_comps'' ''groups'')))"
      and count: "length es =
             1 + length (section_seq listing_doc ''sale_comps'' ''comps'')
               + length (section_seq listing_doc ''active_comps'' ''comps'')
               + sum_list (map (\<lambda>grp. length (group_comps grp))
                               (section_seq listing_doc ''rent_comps'' ''groups''))"
    by (elim exE conjE)
  from labels have l: "map fst es = [''subject'', ''sale_comp_0'', ''sale_comp_1'',
                          ''rent_comp_0_0'', ''rent_comp_0_1'', ''rent_comp_1_0'']"
    by (simp add: listing_sections group_comps_def dec_values)
  from count have c: "length es = 6"
    by (simp add: listing_sections group_comps_def)
  show ?thesis
    by (intro conjI exI[of _ es]) (rule wf_listing k m es l c)+
qed

text \<open>
  Claim C10. For the empty document \<^verbatim>\<open>{}\<close> extraction succeeds with exactly one
  entry: label \<^verbatim>\<open>subject\<close>, path \<^verbatim>\<open>['coordinates', 'subject']\<close>, and the address text
  of five characters (comma, space, comma, space, space) that joining four empty fields
  gives.
\<close>

theorem extract_empty_document:
  "extract_addresses repr (JObj []) =
     Inr [(''subject'', [CHR '','', CHR '' '', CHR '','', CHR '' '', CHR '' ''],
           [Key ''coordinates'', Key ''subject''])]"
  by (simp add: extract_addresses_def subject_addr_def field_def section_items_def)

lemma comp_entries_only_address:
  "map (\<lambda>c. field_text repr c ''address'') cs = map (\<lambda>c. field_text repr c ''address'') cs' \<Longrightarrow>
   comp_entries repr cover lab pth i cs = comp_entries repr cover lab pth i cs'"
proof (induction cs arbitrary: cs' i)
  case Nil
  then show ?case by (simp add: comp_entries_def)
next
  case (Cons c cs)
  from Cons.prems obtain c' rest where r: "cs' = c' # rest" by (cases cs') auto
  with Cons.prems have a: "field_text repr c ''address'' = field_text repr c' ''address''"
    and b: "map (\<lambda>c. field_text repr c ''address'') cs = map (\<lambda>c. field_text repr c ''address'') rest"
    by simp_all
  from Cons.IH[OF b, of "Suc i"] a r show ?case by (simp add: comp_entries_def comp_addr_def)
qed

lemma extract_listing: "extract_addresses no_repr listing_doc = Inr listing_entries"
  by (simp add: extract_addresses_def listing_doc_def listing_entries_def subject_addr_def
      city_state_def field_def section_items_def sale_label_def sale_path_def rent_label_def
      rent_path_def dec_values)

text \<open>
  Claim C9. When extraction succeeds, the entry of every sale, active and rent comparable
  of the document has as address text the comparable's own \<^verbatim>\<open>address\<close> field, then
  \<^verbatim>\<open>", "\<close>, then city, \<^verbatim>\<open>", "\<close>, state, a blank and zip of the document's cover section,
  each field as text (a string as it is, a number in decimal digits) and a missing field
  as the empty string. Nothing else of a comparable enters the text: over two lists of
  comparables with the same \<^verbatim>\<open>address\<close> fields the loop builds the same entries.
\<close>

theorem comparable_address_text:
  "(extract_addresses repr d = Inr es \<longrightarrow>
      (\<forall>i < length (section_seq d ''sale_comps'' ''comps'').
         (sale_label i,
          field_text repr (section_seq d ''sale_comps'' ''comps'' ! i) ''address''
            @ '', '' @ field_text repr (cover_of d) ''address_city''
            @ '', '' @ field_text repr (cover_of d) ''address_state''
            @ '' '' @ field_text repr (cover_of d) ''address_zip'',
          sale_path i) \<in> set es)
    \<and> (\<forall>i < length (section_seq d ''active_comps'' ''comps'').
         (active_label i,
          field_text repr (section_seq d ''active_comps'' ''comps'' ! i) ''address''
            @ '', '' @ field_text repr (cover_of d) ''address_city''
            @ '', '' @ field_text repr (cover_of d) ''address_state''
            @ '' '' @ field_text repr (cover_of d) ''address_zip'',
          active_path i) \<in> set es)
    \<and> (\<forall>g < length (section_seq d ''rent_comps'' ''groups'').
        \<forall>c < length (group_comps (section_seq d ''rent_comps'' ''groups'' ! g)).
         (rent_label g c,
          field_text repr (group_comps (section_seq d ''rent_comps'' ''groups'' ! g) ! c) ''address''
            @ '', '' @ field_text repr (cover_of d) ''address_city''
            @ '', '' @ field_text repr (cover_of d) ''address_state''
            @ '' '' @ field_text repr (cover_of d) ''address_zip'',
          rent_path g c) \<in> set es))
   \<and> (is_obj cover \<and> list_all is_obj cs \<and> list_all is_obj cs'
        \<and> map (\<lambda>c. field_text repr c ''address'') cs = map (\<lambda>c. field_text repr c ''address'') cs'
      \<longrightarrow> comp_loop repr cover lab pth n cs = comp_loop repr cover lab pth n cs')
   \<and> (getitem obj (Key k) = Inl KeyError \<longrightarrow> field repr obj k = Inr [])"
proof (intro conjI impI allI)
  assume "extract_addresses repr d = Inr es"
  then have es: "es = expected_entries repr d" by (rule extract_addresses_Inr)
  {
    fix i assume "i < length (section_seq d ''sale_comps'' ''comps'')"
    from comp_entries_member[OF this, of sale_label 0 repr "cover_of d" sale_path]
    show "(sale_label i,
          field_text repr (section_seq d ''sale_comps'' ''comps'' ! i) ''address''
            @ '', '' @ field_text repr (cover_of d) ''address_city''
            @ '', '' @ field_text repr (cover_of d) ''address_state''
            @ '' '' @ field_text repr (cover_of d) ''address_zip'',
          sale_path i) \<in> set es"
      unfolding es expected_entries_def comp_addr_def by simp
  }
  {
    fix i assume "i < length (section_seq d ''active_comps'' ''comps'')"
    from comp_entries_member[OF this, of active_label 0 repr "cover_of d" active_path]
    show "(active_label i,
          field_text repr (section_seq d ''active_comps'' ''comps'' ! i) ''address''
            @ '', '' @ field_text repr (cover_of d) ''address_city''
            @ '', '' @ field_text repr (cover_of d) ''address_state''
            @ '' '' @ field_text repr (cover_of d) ''address_zip'',
          active_path i) \<in> set es"
      unfolding es expected_entries_def comp_addr_def by simp
  }
  {
    fix g c assume "g < length (section_seq d ''rent_comps'' ''groups'')"
      "c < length (group_comps (section_seq d ''rent_comps'' ''groups'' ! g))"
    from rent_entries_member[OF this, of 0 repr "cover_of d"]
    show "(rent_label g c,
          field_text repr (group_comps (section_seq d ''rent_comps'' ''groups'' ! g) ! c) ''address''
            @ '', '' @ field_text repr (cover_of d) ''address_city''
            @ '', '' @ field_text repr (cover_of d) ''address_state''
            @ '' '' @ field_text repr (cover_of d) ''address_zip'',
          rent_path g c) \<in> set es"
      unfolding es expected_entries_def comp_addr_def by simp
  }
next
  assume a: "is_obj cover \<and> list_all is_obj cs \<and> list_all is_obj cs'
        \<and> map (\<lambda>c. field_text repr c ''address'') cs = map (\<lambda>c. field_text repr c ''address'') cs'"
  then have "comp_entries repr cover lab pth n cs = comp_entries repr cover lab pth n cs'"
    by (intro comp_entries_only_address) simp
  with a show "comp_loop repr cover lab pth n cs = comp_loop repr cover lab pth n cs'"
    by (simp add: comp_loop_obj)
next
  assume "getitem obj (Key k) = Inl KeyError"
  then show "field repr obj k = Inr []" by (rule field_missing)
qed

theorem comparable_address_text_witness:
  "extract_addresses no_repr listing_doc = Inr listing_entries
   \<and> (''sale_comp_1'', ''-5, Metropolis, NY 10001'',
        [Key ''sale_comps'', Key ''comps'', Idx 1, Key ''coords'']) \<in> set listing_entries
   \<and> (''rent_comp_0_1'', '', Metropolis, NY 10001'',
        [Key ''rent_comps'', Key ''groups'', Idx 0, Key ''comps'', Idx 1, Key ''coords''])
       \<in> set listing_entries
   \<and> comp_loop no_repr (cover_of listing_doc) sale_label sale_path 0
        [JObj [(Key ''address'', JInt (- 5)), (Key ''address_city'', JStr ''Gotham''),
               (Key ''address_zip'', JStr ''99999'')]]
       = comp_loop no_repr (cover_of listing_doc) sale_label sale_path 0
           [JObj [(Key ''address'', JStr ''-5'')]]
   \<and> getitem (JObj [(Key ''address_city'', JStr ''Gotham'')] :: int json) (Key ''address'')
       = Inl KeyError
   \<and> field no_repr (JObj [(Key ''address_city'', JStr ''Gotham'')]) ''address'' = Inr []"
proof -
  let ?c = "JObj [(Key ''address'', JInt (- 5)), (Key ''address_city'', JStr ''Gotham''),
               (Key ''address_zip'', JStr ''99999'')] :: int json"
  let ?c' = "JObj [(Key ''address'', JStr ''-5'')] :: int json"
  let ?r = "JObj [(Key ''address_city'', JStr ''Gotham'')] :: int json"
  note t = comparable_address_text[where repr = no_repr and d = listing_doc
      and es = listing_entries and cover = "cover_of listing_doc" and cs = "[?c]" and cs' = "[?c']"
      and lab = sale_label and pth = sale_path and n = 0
      and obj = ?r and k = "''address''"]
  note ex = t[THEN conjunct1, rule_format, OF extract_listing]
  have k: "getitem ?r (Key ''address'') = Inl KeyError"
    by simp
  have "Suc 0 < length (section_seq listing_doc ''sale_comps'' ''comps'')"
    by (simp add: listing_sections)
  from ex[THEN conjunct1, rule_format, OF this]
  have a: "(''sale_comp_1'', ''-5, Metropolis, NY 10001'',
        [Key ''sale_comps'', Key ''comps'', Idx 1, Key ''coords'']) \<in> set listing_entries"
    by (simp add: listing_sections sale_label_def sale_path_def dec_values)
  have g: "0 < length (section_seq listing_doc ''rent_comps'' ''groups'')"
    by (simp add: listing_sections)
  have c: "Suc 0 < length (group_comps (section_seq listing_doc ''rent_comps'' ''groups'' ! 0))"
    by (simp add: listing_sections group_comps_def)
  from ex[THEN conjunct2, THEN conjunct2, rule_format, OF g c]
  have b: "(''rent_comp_0_1'', '', Metropolis, NY 10001'',
        [Key ''rent_comps'', Key ''groups'', Idx 0, Key ''comps'', Idx 1, Key ''coords''])
       \<in> set listing_entries"
    by (simp add: listing_sections group_comps_def rent_label_def rent_path_def dec_values)
  have "is_obj (cover_of listing_doc) \<and> list_all is_obj [?c] \<and> list_all is_obj [?c']
        \<and> map (\<lambda>c. field_text no_repr c ''address'') [?c]
            = map (\<lambda>c. field_text no_repr c ''address'') [?c']"
    by (simp add: listing_sections dec_values)
  from t[THEN conjunct2, THEN conjunct1, rule_format, OF this]
  have i: "comp_loop no_repr (cover_of listing_doc) sale_label sale_path 0 [?c]
       = comp_loop no_repr (cover_of listing_doc) sale_label sale_path 0 [?c']" .
  from t[THEN conjunct2, THEN conjunct2, rule_format, OF k]
  have f: "field no_repr ?r ''address'' = Inr []" .
  from extract_listing a b i k f show ?thesis by (intro conjI)
qed

section \<open>Validity of paths\<close>

lemma setitem_accepts: "(\<exists>obj'. setitem obj k v = Inr obj') = accepts obj k"
  by (cases "(obj, k, v)" rule: setitem.cases) auto

lemma setitem_error: "setitem obj k v = Inl e \<Longrightarrow> e \<noteq> AttributeError \<and> e \<noteq> KeyError"
  by (cases "(obj, k, v)" rule: setitem.cases) (auto split: if_splits)

lemma getitem_error: "getitem obj k = Inl e \<Longrightarrow> e \<noteq> AttributeError"
  by (cases "(obj, k)" rule: getitem.cases) (auto split: if_splits option.splits)

lemma set_path_str: "set_path (JStr s :: 'f json) p v \<noteq> Inr obj'"
proof (induction p arbitrary: s obj')
  case Nil
  then show ?case by simp
next
  case (Cons k p)
  show ?case
  proof (cases p)
    case Nil
    then show ?thesis by simp
  next
    case p: (Cons k' p')
    show ?thesis
    proof (cases "getitem (JStr s :: 'f json) k")
      case (Inl e)
      with p show ?thesis by simp
    next
      case (Inr child)
      then obtain c where "child = JStr c" by (cases k) (auto split: if_splits)
      with Inr p Cons.IH[of c] show ?thesis
        by (cases "set_path (JStr c :: 'f json) (k' # p') v") auto
    qed
  qed
qed

lemma getitem_accepts: "getitem obj k = Inr child \<Longrightarrow> (\<exists>s. obj = JStr s) \<or> accepts obj k"
  by (cases "(obj, k)" rule: getitem.cases) (auto split: if_splits)

lemma set_path_valid: "(\<exists>obj'. set_path obj p v = Inr obj') = valid_path obj p"
proof (induction obj p rule: valid_path.induct)
  case (1 obj)
  then show ?case by simp
next
  case (2 obj k)
  then show ?case by (simp add: setitem_accepts)
next
  case (3 obj k k' ks)
  show ?case
  proof (cases "getitem obj k")
    case (Inl e)
    then show ?thesis by simp
  next
    case (Inr child)
    show ?thesis
    proof (cases "set_path child (k' # ks) v")
      case (Inl e)
      with Inr "3.IH"[OF Inr] show ?thesis by auto
    next
      case r: (Inr child')
      from Inr getitem_accepts have "(\<exists>s. obj = JStr s) \<or> accepts obj k" by blast
      then have "accepts obj k"
      proof
        assume "\<exists>s. obj = JStr s"
        then obtain s where s: "obj = JStr s" by blast
        with Inr obtain c where "child = JStr c" by (cases k) (auto split: if_splits)
        with r set_path_str show ?thesis by blast
      qed
      then obtain obj' where "setitem obj k child' = Inr obj'"
        using setitem_accepts by blast
      with Inr r "3.IH"[OF Inr] show ?thesis by auto
    qed
  qed
qed

lemma set_path_error: "set_path obj p v = Inl e \<Longrightarrow> e \<noteq> AttributeError"
proof (induction obj p v rule: set_path.induct)
  case (1 obj v)
  then show ?case by auto
next
  case (2 obj k v)
  then show ?case by (auto dest: setitem_error)
next
  case (3 obj k k' ks v)
  show ?case
  proof (cases "getitem obj k")
    case (Inl e')
    with "3.prems" show ?thesis by (auto dest: getitem_error)
  next
    case (Inr child)
    show ?thesis
    proof (cases "set_path child (k' # ks) v")
      case (Inl e')
      with Inr "3.prems" "3.IH"[of child] show ?thesis by auto
    next
      case r: (Inr child')
      with Inr "3.prems" show ?thesis by (auto dest: setitem_error)
    qed
  qed
qed

lemma accepts_setitem: "setitem obj b x = Inr obj' \<Longrightarrow> accepts obj' k = accepts obj k"
  by (cases "(obj, b, x)" rule: setitem.cases; cases k) (auto split: if_splits)

lemma valid_path_stable:
  "valid_path obj p \<Longrightarrow> set_path obj q w = Inr obj' \<Longrightarrow> diverge p q \<Longrightarrow> valid_path obj' p"
proof (induction obj p arbitrary: obj' q rule: valid_path.induct)
  case (1 obj)
  then show ?case by simp
next
  case (2 obj k)
  then obtain b q' where q: "q = b # q'" by (cases q) auto
  with "2.prems"(2) obtain x where "setitem obj b x = Inr obj'"
    using set_path_root by blast
  with "2.prems"(1) show ?case by (simp add: accepts_setitem)
next
  case (3 obj k k' ks)
  from "3.prems"(1) obtain child where
    c: "getitem obj k = Inr child" "valid_path child (k' # ks)"
    by (cases "getitem obj k") auto
  from "3.prems"(3) obtain b q' where q: "q = b # q'" by (cases q) auto
  show ?case
  proof (cases "k = b")
    case True
    with "3.prems"(3) q have d: "diverge (k' # ks) q'" by simp
    then obtain b' q'' where q': "q' = b' # q''" by (cases q') auto
    from "3.prems"(2) q True q' c(1) obtain c2 where
      c2: "set_path child q' w = Inr c2" "setitem obj k c2 = Inr obj'"
      by (cases "set_path child (b' # q'') w") auto
    from "3.IH"[OF c(1) c(2) c2(1) d] have "valid_path c2 (k' # ks)" .
    moreover from c2(2) have "getitem obj' k = Inr c2" by (rule getitem_setitem_same)
    ultimately show ?thesis by simp
  next
    case False
    from "3.prems"(2) q obtain x where "setitem obj b x = Inr obj'"
      using set_path_root by blast
    with False have "getitem obj' k = Inr child"
      using c(1) by (metis getitem_setitem_other)
    with c(2) show ?thesis by simp
  qed
qed

lemma update_json_succeeds:
  "list_all (valid_path d) (written_paths rs) \<Longrightarrow> separated (written_paths rs) \<Longrightarrow>
   \<exists>d'. update_json d rs = Inr d'"
proof (induction rs arbitrary: d)
  case Nil
  then show ?case by simp
next
  case (Cons r rs)
  obtain l oc where r: "r = (l, oc)" by (cases r)
  show ?case
  proof (cases "coords oc = JNull")
    case True
    with Cons r show ?thesis by (simp add: written_paths_Cons)
  next
    case False
    with Cons.prems r have v: "valid_path d (json_path oc)"
      and vs: "list_all (valid_path d) (written_paths rs)"
      and dv: "list_all (diverge (json_path oc)) (written_paths rs)"
      and s: "separated (written_paths rs)"
      by (simp_all add: written_paths_Cons)
    from v obtain d1 where d1: "set_path d (json_path oc) (coords oc) = Inr d1"
      using set_path_valid by blast
    have "list_all (valid_path d1) (written_paths rs)"
      unfolding list_all_iff
    proof
      fix p assume p: "p \<in> set (written_paths rs)"
      with vs have "valid_path d p" by (simp add: list_all_iff)
      moreover from p dv have "diverge p (json_path oc)"
        by (auto simp: list_all_iff intro: diverge_sym)
      ultimately show "valid_path d1 p" using d1 valid_path_stable by blast
    qed
    from Cons.IH[OF this s] obtain d' where "update_json d1 rs = Inr d'" by blast
    with r False d1 show ?thesis by simp
  qed
qed

section \<open>Extracted paths are valid in the document they come from\<close>

lemma get_path_append:
  "get_path d (p @ q) = andthen (get_path d p) (\<lambda>c. get_path c q)"
proof (induction p arbitrary: d)
  case Nil
  then show ?case by simp
next
  case (Cons k p)
  then show ?case by (cases "getitem d k") simp_all
qed

lemma valid_path_append:
  "get_path d p = Inr c \<Longrightarrow> valid_path c q \<Longrightarrow> valid_path d (p @ q)"
proof (induction p arbitrary: d)
  case Nil
  then show ?case by simp
next
  case (Cons k p)
  from Cons.prems(1) obtain child where
    c: "getitem d k = Inr child" "get_path child p = Inr c"
    by (cases "getitem d k") auto
  from Cons.IH[OF c(2) Cons.prems(2)] have v: "valid_path child (p @ q)" .
  then obtain x xs where "p @ q = x # xs" by (cases "p @ q") auto
  with v c(1) show ?case by simp
qed

lemma py_get_found:
  "py_get obj k dflt = Inr v \<Longrightarrow> v \<noteq> dflt \<Longrightarrow> getitem obj (Key k) = Inr v"
  by (cases obj) (auto split: option.splits)

lemma py_iter_obj:
  "py_iter v = Inr items \<Longrightarrow> i < length items \<Longrightarrow> is_obj (items ! i) \<Longrightarrow> v = JArr items"
  by (cases v) (auto simp: key_value_not_obj)

lemma list_nav:
  assumes "py_get obj k (JArr []) = Inr v" and "py_iter v = Inr items"
    and "i < length items" and "is_obj (items ! i)"
  shows "get_path obj [Key k, Idx i] = Inr (items ! i)"
proof -
  from assms(2-4) have v: "v = JArr items" by (rule py_iter_obj)
  with assms(3) have "v \<noteq> JArr []" by auto
  with assms(1) have "getitem obj (Key k) = Inr v" by (rule py_get_found)
  with v assms(3) show ?thesis by simp
qed

lemma section_nav:
  assumes "section_items d sec inner = Inr items"
    and "i < length items" and "is_obj (items ! i)"
  shows "get_path d [Key sec, Key inner, Idx i] = Inr (items ! i)"
proof -
  from assms(1) obtain secv v where
    a: "py_get d sec (JObj []) = Inr secv" "py_get secv inner (JArr []) = Inr v"
       "py_iter v = Inr items"
    unfolding section_items_def by (auto dest!: andthen_Inr)
  from list_nav[OF a(2,3) assms(2,3)]
  have n: "get_path secv [Key inner, Idx i] = Inr (items ! i)" .
  then have "secv \<noteq> JObj []" by auto
  with a(1) have "getitem d (Key sec) = Inr secv" by (rule py_get_found)
  with n show ?thesis by simp
qed

lemma obj_accepts: "is_obj obj \<Longrightarrow> accepts obj k"
  by (cases obj) simp_all

lemma comp_path_valid:
  assumes "section_items d sec inner = Inr items"
    and "i < length items" and "is_obj (items ! i)"
  shows "valid_path d [Key sec, Key inner, Idx i, Key ''coords'']"
proof -
  from section_nav[OF assms]
  have "get_path d [Key sec, Key inner, Idx i] = Inr (items ! i)" .
  moreover from assms(3) have "valid_path (items ! i) [Key ''coords'']"
    by (simp add: obj_accepts)
  ultimately have "valid_path d ([Key sec, Key inner, Idx i] @ [Key ''coords''])"
    by (rule valid_path_append)
  then show ?thesis by simp
qed

lemma group_loop_groups:
  "is_obj cover \<Longrightarrow> group_loop repr cover gi groups = Inr es \<Longrightarrow>
   g < length groups \<Longrightarrow>
   is_obj (groups ! g)
   \<and> (\<forall>c < length (group_comps (groups ! g)).
        get_path (groups ! g) [Key ''comps'', Idx c] = Inr (group_comps (groups ! g) ! c)
        \<and> is_obj (group_comps (groups ! g) ! c))"
proof (induction groups arbitrary: gi es g)
  case Nil
  then show ?case by simp
next
  case (Cons grp groups)
  from Cons.prems(2) obtain cv comps here more where
    a: "py_get grp ''comps'' (JArr []) = Inr cv" "py_iter cv = Inr comps"
       "comp_loop repr cover (rent_label gi) (rent_path gi) 0 comps = Inr here"
       "group_loop repr cover (Suc gi) groups = Inr more"
    by (auto dest!: andthen_Inr)
  show ?case
  proof (cases g)
    case 0
    from group_comps_Inr[OF Cons.prems(1) a(1,2,3)] have gc: "comps = group_comps grp" .
    from a(1) have o: "is_obj grp" by (auto dest: py_get_Inr)
    from comp_loop_Inr[OF Cons.prems(1) a(3)] have all: "list_all is_obj comps" by simp
    have "get_path grp [Key ''comps'', Idx c] = Inr (comps ! c) \<and> is_obj (comps ! c)"
      if "c < length comps" for c
    proof -
      from all that have "is_obj (comps ! c)" by (simp add: list_all_length)
      with list_nav[OF a(1,2) that] show ?thesis by simp
    qed
    with 0 o gc show ?thesis by simp
  next
    case (Suc j)
    with Cons.prems(3) have "j < length groups" by simp
    from Cons.IH[OF Cons.prems(1) a(4) this] Suc show ?thesis by simp
  qed
qed

lemma rent_paths_bounded:
  "p \<in> (\<lambda>e. snd (snd e)) ` set (rent_entries repr cover gi groups) \<Longrightarrow>
   \<exists>g c. g < length groups \<and> c < length (group_comps (groups ! g)) \<and> p = rent_path (gi + g) c"
proof (induction groups arbitrary: gi)
  case Nil
  then show ?case by (simp add: rent_entries_Nil)
next
  case (Cons grp groups)
  from Cons.prems consider
    "p \<in> set (map (\<lambda>e. snd (snd e))
        (comp_entries repr cover (rent_label gi) (rent_path gi) 0 (group_comps grp)))"
    | "p \<in> (\<lambda>e. snd (snd e)) ` set (rent_entries repr cover (Suc gi) groups)"
    by (auto simp: rent_entries_Cons)
  then show ?case
  proof cases
    case 1
    then obtain c where "c < length (group_comps grp)" "p = rent_path gi c"
      unfolding map_path_comp_entries by auto
    then have "0 < length (grp # groups) \<and> c < length (group_comps ((grp # groups) ! 0))
        \<and> p = rent_path (gi + 0) c" by simp
    then show ?thesis by blast
  next
    case 2
    from Cons.IH[OF 2] obtain g c where
      g: "g < length groups" "c < length (group_comps (groups ! g))" "p = rent_path (Suc gi + g) c"
      by blast
    then have "Suc g < length (grp # groups) \<and> c < length (group_comps ((grp # groups) ! Suc g))
        \<and> p = rent_path (gi + Suc g) c" by simp
    then show ?thesis by blast
  qed
qed

lemma rent_path_valid:
  assumes "is_obj cover" and "section_items d ''rent_comps'' ''groups'' = Inr groups"
    and "group_loop repr cover 0 groups = Inr es"
    and "g < length groups" and "c < length (group_comps (groups ! g))"
  shows "valid_path d (rent_path g c)"
proof -
  from group_loop_groups[OF assms(1,3,4)] assms(5) have
    o: "is_obj (groups ! g)"
    and n: "get_path (groups ! g) [Key ''comps'', Idx c] = Inr (group_comps (groups ! g) ! c)"
    and oc: "is_obj (group_comps (groups ! g) ! c)"
    by simp_all
  from section_nav[OF assms(2,4) o]
  have "get_path d [Key ''rent_comps'', Key ''groups'', Idx g] = Inr (groups ! g)" .
  with n have "get_path d ([Key ''rent_comps'', Key ''groups'', Idx g] @ [Key ''comps'', Idx c])
      = Inr (group_comps (groups ! g) ! c)"
    by (simp only: get_path_append andthen.simps)
  moreover from oc have "valid_path (group_comps (groups ! g) ! c) [Key ''coords'']"
    by (simp add: obj_accepts)
  ultimately have "valid_path d
      (([Key ''rent_comps'', Key ''groups'', Idx g] @ [Key ''comps'', Idx c]) @ [Key ''coords''])"
    by (rule valid_path_append)
  then show ?thesis by (simp add: rent_path_def)
qed

lemma extracted_paths_valid:
  assumes "extract_addresses repr d = Inr es"
    and "getitem d (Key ''coordinates'') = Inr (JObj kvs)"
  shows "list_all (valid_path d) (map (\<lambda>e. snd (snd e)) es)"
proof -
  from assms(1) obtain cover subj sales se actives ae groups re where
    a: "py_get d ''cover'' (JObj []) = Inr cover" "subject_addr repr cover = Inr subj"
       "section_items d ''sale_comps'' ''comps'' = Inr sales"
       "comp_loop repr cover sale_label sale_path 0 sales = Inr se"
       "section_items d ''active_comps'' ''comps'' = Inr actives"
       "comp_loop repr cover active_label active_path 0 actives = Inr ae"
       "section_items d ''rent_comps'' ''groups'' = Inr groups"
       "group_loop repr cover 0 groups = Inr re"
       "es = (''subject'', subj, [Key ''coordinates'', Key ''subject'']) # se @ ae @ re"
    unfolding extract_addresses_def by (auto dest!: andthen_Inr)
  from a(2) have o: "is_obj cover" by (rule subject_addr_Inr)
  from comp_loop_Inr[OF o a(4)] have se: "se = comp_entries repr cover sale_label sale_path 0 sales"
    and so: "list_all is_obj sales" by simp_all
  from comp_loop_Inr[OF o a(6)]
  have ae: "ae = comp_entries repr cover active_label active_path 0 actives"
    and ao: "list_all is_obj actives" by simp_all
  from group_loop_Inr[OF o a(8)] have re: "re = rent_entries repr cover 0 groups" by simp
  have 1: "valid_path d [Key ''coordinates'', Key ''subject'']"
    using assms(2) by simp
  have 2: "list_all (valid_path d) (map (\<lambda>e. snd (snd e)) se)"
    unfolding se map_path_comp_entries list_all_iff
  proof
    fix p assume "p \<in> set (map sale_path [0..<0 + length sales])"
    then obtain i where i: "i < length sales" "p = sale_path i" by auto
    with so have "is_obj (sales ! i)" by (simp add: list_all_length)
    from comp_path_valid[OF a(3) i(1) this] i(2) show "valid_path d p"
      by (simp add: sale_path_def)
  qed
  have 3: "list_all (valid_path d) (map (\<lambda>e. snd (snd e)) ae)"
    unfolding ae map_path_comp_entries list_all_iff
  proof
    fix p assume "p \<in> set (map active_path [0..<0 + length actives])"
    then obtain i where i: "i < length actives" "p = active_path i" by auto
    with ao have "is_obj (actives ! i)" by (simp add: list_all_length)
    from comp_path_valid[OF a(5) i(1) this] i(2) show "valid_path d p"
      by (simp add: active_path_def)
  qed
  have 4: "list_all (valid_path d) (map (\<lambda>e. snd (snd e)) re)"
    unfolding re list_all_iff
  proof
    fix p assume "p \<in> set (map (\<lambda>e. snd (snd e)) (rent_entries repr cover 0 groups))"
    then have "p \<in> (\<lambda>e. snd (snd e)) ` set (rent_entries repr cover 0 groups)" by simp
    from rent_paths_bounded[OF this] obtain g c where
      g: "g < length groups" "c < length (group_comps (groups ! g))" "p = rent_path g c"
      by auto
    from rent_path_valid[OF o a(7,8) g(1,2)] g(3) show "valid_path d p" by simp
  qed
  from 1 2 3 4 show ?thesis unfolding a(9) by simp
qed

lemma list_all_map_filter: "list_all P (map f xs) \<Longrightarrow> list_all P (map f (filter Q xs))"
  by (induction xs) auto

lemma pipeline_merge_succeeds:
  assumes "extract_addresses repr d = Inr es"
    and "getitem d (Key ''coordinates'') = Inr (JObj kvs)"
  shows "\<exists>d'. update_json d (results (geocode_all g rnd es)) = Inr d'"
proof -
  from assms(1) have "es = expected_entries repr d" by (rule extract_addresses_Inr)
  then have "distinct (map fst es)" by (simp add: distinct_expected_labels)
  then have rs: "results (geocode_all g rnd es) = expected_outcomes g rnd 0 es"
    by (rule results_geocode_all)
  have "list_all (valid_path d) (map json_path (map snd (expected_outcomes g rnd 0 es)))"
    unfolding json_paths_expected_outcomes using assms by (rule extracted_paths_valid)
  then have v: "list_all (valid_path d) (written_paths (results (geocode_all g rnd es)))"
    unfolding rs written_paths_def by (rule list_all_map_filter)
  have s: "separated (written_paths (results (geocode_all g rnd es)))"
    using assms(1) by (rule separated_pipeline)
  from v s show ?thesis by (rule update_json_succeeds)
qed

text \<open>
  Claim C3, as the code has it. \<^verbatim>\<open>update_json\<close> validates nothing itself: a path is
  walked by plain indexing. The assignment at a path succeeds exactly when the path is
  valid in the document, that is, every step but the last resolves and the container
  reached accepts the last step. Otherwise the lookup error of the first invalid step
  (KeyError, IndexError or TypeError) is raised, and \<^verbatim>\<open>update_json\<close> fails with this
  error. For the results built from the entries extracted from the same document every
  path is valid, and the merge returns a document whenever \<^verbatim>\<open>coordinates\<close> of the document
  is an object.
\<close>

theorem update_json_unchecked_indexing:
  "((\<exists>obj'. set_path obj p v = Inr obj') = valid_path obj p)
   \<and> (coords oc \<noteq> JNull \<longrightarrow> set_path d (json_path oc) (coords oc) = Inl e \<longrightarrow>
        update_json d ((l, oc) # rest) = Inl e \<and> e \<noteq> AttributeError)
   \<and> (extract_addresses repr d = Inr es \<longrightarrow> getitem d (Key ''coordinates'') = Inr (JObj kvs) \<longrightarrow>
        (\<exists>d'. update_json d (results (geocode_all g rnd es)) = Inr d'))"
proof (intro conjI impI)
  show "(\<exists>obj'. set_path obj p v = Inr obj') = valid_path obj p"
    by (rule set_path_valid)
next
  assume "coords oc \<noteq> JNull" "set_path d (json_path oc) (coords oc) = Inl e"
  then show "update_json d ((l, oc) # rest) = Inl e" by simp
next
  assume "set_path d (json_path oc) (coords oc) = Inl e"
  then show "e \<noteq> AttributeError" by (rule set_path_error)
next
  assume "extract_addresses repr d = Inr es" "getitem d (Key ''coordinates'') = Inr (JObj kvs)"
  then show "\<exists>d'. update_json d (results (geocode_all g rnd es)) = Inr d'"
    by (rule pipeline_merge_succeeds)
qed

theorem update_json_unchecked_indexing_witness:
  "extract_addresses no_repr sample_doc = Inr sample_entries
   \<and> getitem sample_doc (Key ''coordinates'') = Inr (JObj [])
   \<and> (\<exists>d'. update_json sample_doc
              (results (geocode_all sample_geocoder no_round sample_entries)) = Inr d')
   \<and> coords (found_subject) \<noteq> JNull
   \<and> set_path (JObj []) (json_path (found_subject)) (coords (found_subject))
       = Inl KeyError
   \<and> update_json (JObj []) ((''subject'', found_subject) # []) = Inl KeyError"
proof -
  note t = update_json_unchecked_indexing[where d = sample_doc and repr = no_repr
      and es = sample_entries and kvs = "[]" and g = sample_geocoder and rnd = no_round]
  note u = update_json_unchecked_indexing[where d = "JObj []" and oc = "found_subject"
      and e = KeyError and l = "''subject''" and rest = "[]"]
  have k: "getitem sample_doc (Key ''coordinates'') = Inr (JObj [])"
    by (simp add: sample_doc_def)
  have c: "coords (found_subject) \<noteq> JNull"
    by (simp add: found_subject_def)
  have s: "set_path (JObj []) (json_path (found_subject))
             (coords (found_subject)) = Inl KeyError"
    by (simp add: found_subject_def)
  from t[THEN conjunct2, THEN conjunct2, rule_format, OF extract_sample k]
  have a: "\<exists>d'. update_json sample_doc
              (results (geocode_all sample_geocoder no_round sample_entries)) = Inr d'" .
  from u[THEN conjunct2, THEN conjunct1, rule_format, OF c s]
  have b: "update_json (JObj []) ((''subject'', found_subject) # []) = Inl KeyError"
    by (rule conjunct1)
  from extract_sample k a c s b show ?thesis by (intro conjI)
qed

text \<open>
  Claim C3 as stated fails on the empty document: extraction gives the subject entry, the
  geocoder finds it, and \<^verbatim>\<open>update_json\<close> raises KeyError at the missing \<^verbatim>\<open>coordinates\<close>
  key. The invalid step is neither checked nor handled.
\<close>

theorem update_json_raises_on_missing_key:
  "extract_addresses no_repr (JObj [])
     = Inr [(''subject'', '', ,  '', [Key ''coordinates'', Key ''subject''])]
   \<and> update_json (JObj [])
       (results (geocode_all sample_geocoder no_round
          [(''subject'', '', ,  '', [Key ''coordinates'', Key ''subject''])]))
     = Inl KeyError"
  by (simp add: extract_addresses_def subject_addr_def field_def section_items_def
      geocode_all_def geocode_step_def)

end
